theory Spec2Isabelle
  imports Main "HOL-Library.DAList"
begin

section \<open>The bounded cache store (internal/cache/cache.go)\<close>

text \<open>
  Go strings and byte slices are sequences of 8-bit bytes; \<^typ>\<open>char\<close> is the 8-bit byte,
  so both are character lists (a component may hold any byte, the zero byte included).
  An instant of \<open>time.Time\<close> is its position on the clock in nanoseconds and a
  \<open>time.Duration\<close> is a number of nanoseconds; both are integers. The counters and the
  memory account are \<open>int64\<close> in the source and integers here: they are sums of lengths of
  slices that exist in memory, far below \<open>2^63\<close>.

  A Go map has distinct keys and an iteration order that the language leaves open. It is an
  association list with distinct keys (\<^typ>\<open>('k, 'v) alist\<close>); the order of the list is the
  order in which \<open>range\<close> visits the map. Statements about all stores cover all orders.
\<close>

type_synonym bytes = "char list"
type_synonym time = int
type_synonym duration = int

definition Second :: duration where
  "Second = 1000000000"

definition Minute :: duration where
  "Minute = 60 * Second"

definition Hour :: duration where
  "Hour = 60 * Minute"

record Entry =
  Data :: bytes
  Expiry :: time
  ETag :: string
  LastModified :: string

text \<open>\<open>IsExpired\<close>: \<open>time.Now().After(e.Expiry)\<close>, with the clock reading as argument.\<close>

definition IsExpired :: "Entry \<Rightarrow> time \<Rightarrow> bool" where
  "IsExpired e now = (Expiry e < now)"

text \<open>\<open>Entry.Size\<close>.\<close>

definition Entry_Size :: "Entry \<Rightarrow> int" where
  "Entry_Size e = int (length (Data e) + length (ETag e) + length (LastModified e) + 24)"

record Cache =
  entries :: "(string, Entry) alist"
  maxSize :: int
  maxMemory :: int
  maxTTL :: duration
  ttl :: duration
  minTTL :: duration
  accessLRU :: "(string, time) alist"
  hits :: int
  misses :: int
  evictions :: int
  memory :: int

text \<open>\<open>len(m)\<close> of a map.\<close>

definition len :: "('k, 'v) alist \<Rightarrow> nat" where
  "len m = length (DAList.impl_of m)"

definition NewCacheWithMemoryLimit ::
  "int \<Rightarrow> duration \<Rightarrow> duration \<Rightarrow> int \<Rightarrow> duration \<Rightarrow> Cache" where
  "NewCacheWithMemoryLimit maxSize0 defaultTTL minTTL0 maxMemory0 maxTTL0 =
     \<lparr>entries = DAList.empty,
      maxSize = maxSize0,
      maxMemory = maxMemory0,
      maxTTL = maxTTL0,
      ttl = defaultTTL,
      minTTL = minTTL0,
      accessLRU = DAList.empty,
      hits = 0,
      misses = 0,
      evictions = 0,
      memory = 0\<rparr>"

definition NewCache :: "int \<Rightarrow> duration \<Rightarrow> duration \<Rightarrow> Cache" where
  "NewCache maxSize0 defaultTTL minTTL0 =
     NewCacheWithMemoryLimit maxSize0 defaultTTL minTTL0 (20 * 1024 * 1024) (24 * Hour)"

text \<open>
  \<open>Get\<close> reads the clock twice: \<open>now1\<close> in \<open>IsExpired\<close>, \<open>now2\<close> for the access time.
  It returns the entry found (\<open>None\<close> for \<open>nil, false\<close>) and the store it leaves.
\<close>

definition Get :: "Cache \<Rightarrow> string \<Rightarrow> time \<Rightarrow> time \<Rightarrow> Entry option \<times> Cache" where
  "Get c key now1 now2 =
     (case DAList.lookup (entries c) key of
        None \<Rightarrow> (None, c\<lparr>misses := misses c + 1\<rparr>)
      | Some entry \<Rightarrow>
          if IsExpired entry now1
          then (None, c\<lparr>entries := DAList.delete key (entries c),
                         accessLRU := DAList.delete key (accessLRU c),
                         memory := memory c - Entry_Size entry,
                         misses := misses c + 1\<rparr>)
          else (Some entry, c\<lparr>accessLRU := DAList.update key now2 (accessLRU c),
                               hits := hits c + 1\<rparr>))"

text \<open>
  The scan of \<open>evictLRU\<close> over \<open>accessLRU\<close>, carrying \<open>oldestKey\<close>, \<open>oldestTime\<close> and
  \<open>first\<close>; it yields the final \<open>oldestKey\<close>.
\<close>

fun scanOldest :: "(string \<times> time) list \<Rightarrow> string \<Rightarrow> time \<Rightarrow> bool \<Rightarrow> string" where
  "scanOldest [] oldestKey oldestTime first = oldestKey"
| "scanOldest ((key, accessTime) # rest) oldestKey oldestTime first =
     (if first \<or> accessTime < oldestTime
      then scanOldest rest key accessTime False
      else scanOldest rest oldestKey oldestTime first)"

definition evictLRU :: "Cache \<Rightarrow> Cache" where
  "evictLRU c =
     (if len (entries c) = 0 then c
      else
        let oldestKey = scanOldest (DAList.impl_of (accessLRU c)) [] 0 True
        in if oldestKey \<noteq> []
           then c\<lparr>memory := (case DAList.lookup (entries c) oldestKey of
                               Some entry \<Rightarrow> memory c - Entry_Size entry
                             | None \<Rightarrow> memory c),
                   entries := DAList.delete oldestKey (entries c),
                   accessLRU := DAList.delete oldestKey (accessLRU c),
                   evictions := evictions c + 1\<rparr>
           else c)"

text \<open>
  The eviction loop of \<open>Set\<close>. \<open>evictLRU\<close> leaves the store as it is when the key it
  selects is the empty string, so the loop need not end: \<open>None\<close> is a call that never returns.
\<close>

partial_function (option) evictLoop :: "Cache \<Rightarrow> int \<Rightarrow> Cache option" where
  "evictLoop c newSize =
     (if (maxSize c \<le> int (len (entries c)) \<or> maxMemory c < memory c + newSize)
         \<and> 0 < len (entries c)
      then evictLoop (evictLRU c) newSize
      else Some c)"

text \<open>The TTL that \<open>Set\<close> stores: the two tests of the source, in their order.\<close>

definition clampTTL :: "Cache \<Rightarrow> duration \<Rightarrow> duration" where
  "clampTTL c ttl0 =
     (let ttl1 = (if ttl0 < minTTL c then minTTL c else ttl0)
      in if maxTTL c < ttl1 then maxTTL c else ttl1)"

text \<open>
  \<open>Set\<close> reads the clock twice: \<open>now1\<close> for the expiry, \<open>now2\<close> for the access time.
\<close>

definition Set ::
  "Cache \<Rightarrow> string \<Rightarrow> bytes \<Rightarrow> duration \<Rightarrow> string \<Rightarrow> string \<Rightarrow> time \<Rightarrow> time \<Rightarrow> Cache option" where
  "Set c key data ttl0 etag lastModified now1 now2 =
     (let newEntry = \<lparr>Data = data, Expiry = now1 + clampTTL c ttl0,
                       ETag = etag, LastModified = lastModified\<rparr>;
          newSize = Entry_Size newEntry;
          c1 = (case DAList.lookup (entries c) key of
                  Some oldEntry \<Rightarrow> c\<lparr>memory := memory c - Entry_Size oldEntry\<rparr>
                | None \<Rightarrow> c)
      in case evictLoop c1 newSize of
           None \<Rightarrow> None
         | Some c2 \<Rightarrow>
             Some (c2\<lparr>entries := DAList.update key newEntry (entries c2),
                       accessLRU := DAList.update key now2 (accessLRU c2),
                       memory := memory c2 + newSize\<rparr>))"

definition SetWithDefaultTTL ::
  "Cache \<Rightarrow> string \<Rightarrow> bytes \<Rightarrow> string \<Rightarrow> string \<Rightarrow> time \<Rightarrow> time \<Rightarrow> Cache option" where
  "SetWithDefaultTTL c key data etag lastModified now1 now2 =
     Set c key data (ttl c) etag lastModified now1 now2"

definition Delete :: "Cache \<Rightarrow> string \<Rightarrow> Cache" where
  "Delete c key =
     (let c1 = (case DAList.lookup (entries c) key of
                  Some entry \<Rightarrow> c\<lparr>memory := memory c - Entry_Size entry\<rparr>
                | None \<Rightarrow> c)
      in c1\<lparr>entries := DAList.delete key (entries c1),
             accessLRU := DAList.delete key (accessLRU c1)\<rparr>)"

definition Clear :: "Cache \<Rightarrow> Cache" where
  "Clear c = c\<lparr>entries := DAList.empty, accessLRU := DAList.empty, memory := 0\<rparr>"

text \<open>\<open>Cache.Size\<close>.\<close>

definition Cache_Size :: "Cache \<Rightarrow> int" where
  "Cache_Size c = int (len (entries c))"

text \<open>
  The loop of \<open>CleanupExpired\<close> over the entries present when it starts; deleting the
  current key during \<open>range\<close> is allowed in Go and does not disturb the other keys.
\<close>

fun cleanupLoop :: "(string \<times> Entry) list \<Rightarrow> time \<Rightarrow> Cache \<Rightarrow> int \<Rightarrow> int \<times> Cache" where
  "cleanupLoop [] now c removed = (removed, c)"
| "cleanupLoop ((key, entry) # rest) now c removed =
     (if Expiry entry < now
      then cleanupLoop rest now
             (c\<lparr>memory := memory c - Entry_Size entry,
                entries := DAList.delete key (entries c),
                accessLRU := DAList.delete key (accessLRU c)\<rparr>)
             (removed + 1)
      else cleanupLoop rest now c removed)"

definition CleanupExpired :: "Cache \<Rightarrow> time \<Rightarrow> int \<times> Cache" where
  "CleanupExpired c now = cleanupLoop (DAList.impl_of (entries c)) now c 0"

text \<open>The sum of the sizes of the entries present: what \<open>memory\<close> is meant to hold.\<close>

definition totalSize :: "Cache \<Rightarrow> int" where
  "totalSize c = sum_list (map (\<lambda>kv. Entry_Size (snd kv)) (DAList.impl_of (entries c)))"

definition keys :: "('k, 'v) alist \<Rightarrow> 'k set" where
  "keys m = fst ` set (DAList.impl_of m)"

text \<open>
  Two properties that every store built by the constructor and changed only through its
  operations has: both maps hold the same keys, and \<open>memory\<close> is no more than the sizes held.
\<close>

definition consistent :: "Cache \<Rightarrow> bool" where
  "consistent c \<longleftrightarrow> keys (entries c) = keys (accessLRU c)"

definition storeInv :: "Cache \<Rightarrow> bool" where
  "storeInv c \<longleftrightarrow> consistent c \<and> memory c \<le> totalSize c"

text \<open>What \<open>Set\<close> and \<open>Delete\<close> subtract for a key before touching the maps.\<close>

definition released :: "Cache \<Rightarrow> string \<Rightarrow> int" where
  "released c key = (case DAList.lookup (entries c) key of Some e \<Rightarrow> Entry_Size e | None \<Rightarrow> 0)"

text \<open>
  \<open>evictsTo c c2\<close>: \<open>c2\<close> is \<open>c\<close> after some evictions and nothing else. The entries left
  are untouched, every removal paid its size back and counted one eviction, and the keys
  removed are least recently accessed ones: each had an access time no later than the access
  time of every key left.
\<close>

definition evictsTo :: "Cache \<Rightarrow> Cache \<Rightarrow> bool" where
  "evictsTo c c2 \<longleftrightarrow>
     consistent c2
     \<and> memory c2 - totalSize c2 = memory c - totalSize c
     \<and> maxSize c2 = maxSize c \<and> maxMemory c2 = maxMemory c
     \<and> maxTTL c2 = maxTTL c \<and> minTTL c2 = minTTL c \<and> ttl c2 = ttl c
     \<and> hits c2 = hits c \<and> misses c2 = misses c
     \<and> keys (entries c2) \<subseteq> keys (entries c)
     \<and> (\<forall>k \<in> keys (entries c2).
           DAList.lookup (entries c2) k = DAList.lookup (entries c) k
           \<and> DAList.lookup (accessLRU c2) k = DAList.lookup (accessLRU c) k)
     \<and> evictions c2 = evictions c + int (len (entries c)) - int (len (entries c2))
     \<and> (\<forall>k t k' t'. DAList.lookup (accessLRU c) k = Some t \<and> k \<notin> keys (entries c2)
            \<and> DAList.lookup (accessLRU c) k' = Some t' \<and> k' \<in> keys (entries c2) \<longrightarrow> t \<le> t')"

text \<open>A call of one of the store's operations, with the clock readings it makes.\<close>

datatype Op =
    OpSet string bytes duration string string time time
  | OpGet string time time
  | OpDelete string
  | OpClear
  | OpCleanupExpired time

fun applyOp :: "Cache \<Rightarrow> Op \<Rightarrow> Cache option" where
  "applyOp c (OpSet key data ttl0 etag lastModified now1 now2) =
     Set c key data ttl0 etag lastModified now1 now2"
| "applyOp c (OpGet key now1 now2) = Some (snd (Get c key now1 now2))"
| "applyOp c (OpDelete key) = Some (Delete c key)"
| "applyOp c OpClear = Some (Clear c)"
| "applyOp c (OpCleanupExpired now) = Some (snd (CleanupExpired c now))"

fun run :: "Cache \<Rightarrow> Op list \<Rightarrow> Cache option" where
  "run c [] = Some c"
| "run c (op # ops) = (case applyOp c op of None \<Rightarrow> None | Some c' \<Rightarrow> run c' ops)"

subsection \<open>HashKey\<close>

text \<open>
  \<open>crypto/sha256\<close> is not part of the repository: the digest is the parameter \<open>sha256\<close>,
  a function from the bytes written to the 32 bytes of \<open>Sum\<close>. The hash state is the bytes
  written so far. \<open>fmt.Sprintf("%x", b)\<close> prints each byte as two lower-case hex digits.
\<close>

fun writeComponents :: "bytes \<Rightarrow> string list \<Rightarrow> bytes" where
  "writeComponents h [] = h"
| "writeComponents h (component # components) =
     writeComponents (h @ component @ [CHR 0x00]) components"

definition hexDigit :: "nat \<Rightarrow> char" where
  "hexDigit n = ''0123456789abcdef'' ! n"

definition hexByte :: "char \<Rightarrow> string" where
  "hexByte b = [hexDigit (of_char b div 16), hexDigit (of_char b mod 16)]"

definition hex :: "bytes \<Rightarrow> string" where
  "hex bs = concat (map hexByte bs)"

definition HashKey :: "(bytes \<Rightarrow> bytes) \<Rightarrow> string list \<Rightarrow> string" where
  "HashKey sha256 components = hex (sha256 (writeComponents [] components))"

section \<open>Configuration (internal/config/config.go)\<close>

record ServerConfig =
  Port :: int
  ReadTimeout :: duration
  WriteTimeout :: duration
  IdleTimeout :: duration
  BaseURL :: string

record UpstreamConfig =
  DefaultURL :: string
  Timeout :: duration

record CacheConfig =
  MaxSize :: int
  MaxMemory :: int
  DefaultTTL :: duration
  MinOutputCache :: duration
  MaxTTL :: duration

record RegexConfig =
  MaxExecutionTime :: duration

record GradeFilterConfig =
  Grade_Field :: string
  PatternTemplate :: string

text \<open>\<open>Patterns\<close> is a Go map that may be \<open>nil\<close> (\<open>None\<close>); a pattern is its template.\<close>

record LodgeFilterConfig =
  Lodge_Field :: string
  Names :: "string list"
  Patterns :: "(string, string) alist option"

record SimpleFilterConfig =
  Simple_Field :: string
  Pattern :: string
  Description :: string

record FiltersConfig =
  Grade :: GradeFilterConfig
  Lodge :: LodgeFilterConfig
  ConfirmedOnly :: SimpleFilterConfig
  Installt :: SimpleFilterConfig

record Config =
  Server_cfg :: ServerConfig
  Upstream_cfg :: UpstreamConfig
  Cache_cfg :: CacheConfig
  Regex_cfg :: RegexConfig
  Filters_cfg :: FiltersConfig

datatype ConfigError =
    InvalidServerPort int
  | EmptyBaseURL
  | EmptyDefaultURL
  | CacheMaxSizeNotPositive
  | CacheDefaultTTLNotPositive
  | CacheMinOutputCacheNotPositive
  | CacheMaxMemoryNotPositive
  | CacheMaxTTLNotPositive
  | UpstreamTimeoutNotPositive
  | RegexMaxExecutionTimeNotPositive
  | EmptyGradeField
  | EmptyGradePatternTemplate
  | EmptyLodgeField
  | NilLodgePatterns
  | NoDefaultLodgePattern

text \<open>\<open>validate\<close>: \<open>None\<close> is the \<open>nil\<close> error.\<close>

definition validate :: "Config \<Rightarrow> ConfigError option" where
  "validate cfg =
     (if Port (Server_cfg cfg) \<le> 0 \<or> 65535 < Port (Server_cfg cfg)
        then Some (InvalidServerPort (Port (Server_cfg cfg)))
      else if BaseURL (Server_cfg cfg) = [] then Some EmptyBaseURL
      else if DefaultURL (Upstream_cfg cfg) = [] then Some EmptyDefaultURL
      else if MaxSize (Cache_cfg cfg) \<le> 0 then Some CacheMaxSizeNotPositive
      else if DefaultTTL (Cache_cfg cfg) \<le> 0 then Some CacheDefaultTTLNotPositive
      else if MinOutputCache (Cache_cfg cfg) \<le> 0 then Some CacheMinOutputCacheNotPositive
      else if MaxMemory (Cache_cfg cfg) \<le> 0 then Some CacheMaxMemoryNotPositive
      else if MaxTTL (Cache_cfg cfg) \<le> 0 then Some CacheMaxTTLNotPositive
      else if Timeout (Upstream_cfg cfg) \<le> 0 then Some UpstreamTimeoutNotPositive
      else if MaxExecutionTime (Regex_cfg cfg) \<le> 0 then Some RegexMaxExecutionTimeNotPositive
      else if Grade_Field (Grade (Filters_cfg cfg)) = [] then Some EmptyGradeField
      else if PatternTemplate (Grade (Filters_cfg cfg)) = [] then Some EmptyGradePatternTemplate
      else if Lodge_Field (Lodge (Filters_cfg cfg)) = [] then Some EmptyLodgeField
      else case Patterns (Lodge (Filters_cfg cfg)) of
             None \<Rightarrow> Some NilLodgePatterns
           | Some patterns \<Rightarrow>
               (case DAList.lookup patterns ''default'' of
                  None \<Rightarrow> Some NoDefaultLodgePattern
                | Some _ \<Rightarrow> None))"

text \<open>
  \<open>getTestConfig\<close> of internal/server/server\_test.go, the configuration the server's tests
  run with; the fields it leaves out hold Go's zero values.
\<close>

definition getTestConfig :: Config where
  "getTestConfig =
     \<lparr>Server_cfg = \<lparr>Port = 8080, ReadTimeout = 15 * Second, WriteTimeout = 15 * Second,
                     IdleTimeout = 60 * Second, BaseURL = []\<rparr>,
      Upstream_cfg = \<lparr>DefaultURL = ''https://example.com/calendar.ics'', Timeout = 30 * Second\<rparr>,
      Cache_cfg = \<lparr>MaxSize = 100, MaxMemory = 0, DefaultTTL = 5 * Minute,
                    MinOutputCache = 15 * Minute, MaxTTL = 0\<rparr>,
      Regex_cfg = \<lparr>MaxExecutionTime = 1 * Second\<rparr>,
      Filters_cfg =
        \<lparr>Grade = \<lparr>Grade_Field = ''SUMMARY'', PatternTemplate = ''Grad %s''\<rparr>,
         Lodge = \<lparr>Lodge_Field = ''SUMMARY'', Names = [],
                  Patterns = Some (DAList.update ''default'' ''%s PB''
                               (DAList.update ''Moderlogen'' ''PB, %s:'' DAList.empty))\<rparr>,
         ConfirmedOnly = \<lparr>Simple_Field = ''STATUS'', Pattern = ''CONFIRMED'', Description = []\<rparr>,
         Installt = \<lparr>Simple_Field = ''SUMMARY'',
                     Pattern = ''INST'' @ [CHR 0xC3, CHR 0x84] @ ''LLT'', Description = []\<rparr>\<rparr>\<rparr>"

section \<open>The revalidation coordinator (internal/server/server.go)\<close>

type_synonym error = string

text \<open>\<open>fetcher.Response\<close>.\<close>

record Response =
  Body :: bytes
  StatusCode :: int
  Resp_ETag :: string
  Resp_LastModified :: string
  CacheControl :: string
  Expires :: string

text \<open>
  The three shapes \<open>FetchConditional\<close> returns: \<open>(nil, false, err)\<close>, \<open>(nil, true, nil)\<close>
  and \<open>(resp, false, nil)\<close>.
\<close>

datatype CondResult = CondError error | NotModified | Modified Response

text \<open>
  \<open>Server\<close>, the fields that hold state of the caches. The fetcher is the pair of
  functions handed to \<open>fetchUpstream\<close>; the request metrics and the start time play no
  part in it.
\<close>

record Server =
  cfg :: Config
  upstreamCache :: Cache
  filteredCache :: Cache

text \<open>An \<open>int\<close> product as the 64-bit machine computes it.\<close>

definition wrap64 :: "int \<Rightarrow> int" where
  "wrap64 x = (x + 2 ^ 63) mod 2 ^ 64 - 2 ^ 63"

text \<open>\<open>server.New\<close>, the two stores it builds.\<close>

definition New :: "Config \<Rightarrow> Server" where
  "New cfg0 =
     \<lparr>cfg = cfg0,
      upstreamCache = NewCacheWithMemoryLimit
        (MaxSize (Cache_cfg cfg0))
        (DefaultTTL (Cache_cfg cfg0))
        (MinOutputCache (Cache_cfg cfg0))
        (MaxMemory (Cache_cfg cfg0))
        (MaxTTL (Cache_cfg cfg0)),
      filteredCache = NewCacheWithMemoryLimit
        (wrap64 (MaxSize (Cache_cfg cfg0) * 2))
        (DefaultTTL (Cache_cfg cfg0))
        (MinOutputCache (Cache_cfg cfg0))
        (wrap64 (MaxMemory (Cache_cfg cfg0) * 2))
        (MaxTTL (Cache_cfg cfg0))\<rparr>"

text \<open>\<open>time.Until(t)\<close> is \<open>t.Sub(time.Now())\<close>, which saturates at the ends of \<open>int64\<close>.\<close>

definition Until :: "time \<Rightarrow> time \<Rightarrow> duration" where
  "Until t now =
     (let d = t - now
      in if 2 ^ 63 - 1 < d then 2 ^ 63 - 1 else if d < - (2 ^ 63) then - (2 ^ 63) else d)"

text \<open>
  The lines that end both the "content modified" and the "no cache entry" branch of
  \<open>fetchUpstream\<close>: parse the TTL, fall back to the default, store, return. The parser
  \<open>fetcher.ParseCacheHeaders\<close> reads the clock and calls the standard library; it is the
  parameter \<open>ParseCacheHeaders\<close>.
\<close>

definition storeResponse ::
  "Server \<Rightarrow> Cache \<Rightarrow> (string \<Rightarrow> string \<Rightarrow> duration) \<Rightarrow> string \<Rightarrow> Response \<Rightarrow> time \<Rightarrow> time
     \<Rightarrow> ((error + bytes \<times> duration) \<times> Server) option" where
  "storeResponse s c ParseCacheHeaders upstreamURL resp now1 now2 =
     (let ttl0 = ParseCacheHeaders (CacheControl resp) (Expires resp);
          ttl1 = (if ttl0 = 0 then DefaultTTL (Cache_cfg (cfg s)) else ttl0)
      in case Set c upstreamURL (Body resp) ttl1 (Resp_ETag resp) (Resp_LastModified resp) now1 now2 of
           None \<Rightarrow> None
         | Some c' \<Rightarrow> Some (Inr (Body resp, ttl1), s\<lparr>upstreamCache := c'\<rparr>))"

text \<open>
  \<open>fetchUpstream\<close>. The fetcher's two calls are the parameters \<open>FetchConditional\<close> and
  \<open>Fetch\<close>. The clock is read at \<open>tg1\<close>, \<open>tg2\<close> by \<open>Get\<close>, at \<open>tu\<close> by \<open>time.Until\<close> and
  at \<open>ts1\<close>, \<open>ts2\<close> by \<open>Set\<close>. The result is the returned triple (\<open>Inl\<close> the error) and the
  server left behind; \<open>None\<close> is a call that never returns.
\<close>

definition fetchUpstream ::
  "Server \<Rightarrow> (string \<Rightarrow> string \<Rightarrow> string \<Rightarrow> CondResult) \<Rightarrow> (string \<Rightarrow> error + Response)
     \<Rightarrow> (string \<Rightarrow> string \<Rightarrow> duration) \<Rightarrow> string \<Rightarrow> time \<Rightarrow> time \<Rightarrow> time \<Rightarrow> time \<Rightarrow> time
     \<Rightarrow> ((error + bytes \<times> duration) \<times> Server) option" where
  "fetchUpstream s FetchConditional Fetch ParseCacheHeaders upstreamURL tg1 tg2 tu ts1 ts2 =
     (case Get (upstreamCache s) upstreamURL tg1 tg2 of
        (Some entry, c1) \<Rightarrow>
          (case FetchConditional upstreamURL (ETag entry) (LastModified entry) of
             CondError err \<Rightarrow> Some (Inl err, s\<lparr>upstreamCache := c1\<rparr>)
           | NotModified \<Rightarrow>
               Some (Inr (Data entry, Until (Expiry entry) tu), s\<lparr>upstreamCache := c1\<rparr>)
           | Modified resp \<Rightarrow> storeResponse s c1 ParseCacheHeaders upstreamURL resp ts1 ts2)
      | (None, c1) \<Rightarrow>
          (case Fetch upstreamURL of
             Inl err \<Rightarrow> Some (Inl err, s\<lparr>upstreamCache := c1\<rparr>)
           | Inr resp \<Rightarrow> storeResponse s c1 ParseCacheHeaders upstreamURL resp ts1 ts2))"

text \<open>
  \<open>ServeHTTP\<close>, the duration behind the client's \<open>Cache-Control: max-age\<close>
  (\<open>cacheDuration\<close>, before its conversion to whole seconds).
\<close>

definition cacheDuration :: "Config \<Rightarrow> duration \<Rightarrow> duration" where
  "cacheDuration cfg0 upstreamTTL =
     (if upstreamTTL < MinOutputCache (Cache_cfg cfg0) then MinOutputCache (Cache_cfg cfg0)
      else upstreamTTL)"

section \<open>Maps as association lists with distinct keys\<close>

lemma lookup_None_iff: "DAList.lookup m k = None \<longleftrightarrow> k \<notin> keys m"
  unfolding keys_def by transfer (simp add: map_of_eq_None_iff)

lemma lookup_Some_keys: "DAList.lookup m k = Some v \<Longrightarrow> k \<in> keys m"
  using lookup_None_iff[of m k] by auto

lemma keys_delete: "keys (DAList.delete k m) = keys m - {k}"
  unfolding keys_def by transfer (auto simp: AList.delete_eq)

lemma keys_update: "keys (DAList.update k v m) = insert k (keys m)"
  unfolding keys_def by transfer (simp add: dom_update)

lemma keys_empty: "keys DAList.empty = {}"
  unfolding keys_def by transfer simp

lemma card_keys: "card (keys m) = len m"
  unfolding keys_def len_def
  by transfer (metis comp_apply distinct_card length_map list.set_map)

lemma finite_keys: "finite (keys m)"
  unfolding keys_def by simp

lemma len_delete: "len (DAList.delete k m) = (if k \<in> keys m then len m - 1 else len m)"
  using card_keys[of "DAList.delete k m"] card_keys[of m] finite_keys[of m]
  by (auto simp: keys_delete)

lemma len_update: "len (DAList.update k v m) = (if k \<in> keys m then len m else len m + 1)"
  using card_keys[of "DAList.update k v m"] card_keys[of m] finite_keys[of m]
  by (auto simp: keys_update insert_absorb)

lemma len_empty: "len DAList.empty = 0"
  unfolding len_def by transfer simp

lemma len_0_iff: "len m = 0 \<longleftrightarrow> keys m = {}"
  using card_keys[of m] finite_keys[of m] by auto

lemma delete_absent: "k \<notin> keys m \<Longrightarrow> DAList.delete k m = m"
  unfolding keys_def by transfer simp


section \<open>Eviction\<close>

lemma scanOldest_mem: "scanOldest xs k t first \<in> insert k (fst ` set xs)"
  by (induction xs k t first rule: scanOldest.induct) auto

lemma scanOldest_first: "scanOldest xs k t True \<in> fst ` set xs" if "xs \<noteq> []"
proof (cases xs)
  case Nil
  then show ?thesis using that by simp
next
  case (Cons a list)
  then show ?thesis
    using scanOldest_mem[of list "fst a" "snd a" False] by (cases a) auto
qed

lemma scanOldest_le:
  "\<exists>tr. (scanOldest xs cur tc False = cur \<and> tr = tc \<or> (scanOldest xs cur tc False, tr) \<in> set xs)
        \<and> tr \<le> tc \<and> (\<forall>p \<in> set xs. tr \<le> snd p)"
proof (induction xs arbitrary: cur tc)
  case Nil
  then show ?case by simp
next
  case (Cons a rest)
  obtain key accessTime where a: "a = (key, accessTime)" by (cases a)
  show ?case
  proof (cases "accessTime < tc")
    case True
    from Cons.IH[of key accessTime] obtain tr where
      "scanOldest rest key accessTime False = key \<and> tr = accessTime
         \<or> (scanOldest rest key accessTime False, tr) \<in> set rest"
      and "tr \<le> accessTime" and "\<forall>p \<in> set rest. tr \<le> snd p"
      by blast
    with True a show ?thesis by (intro exI[of _ tr]) auto
  next
    case False
    from Cons.IH[of cur tc] obtain tr where
      "scanOldest rest cur tc False = cur \<and> tr = tc \<or> (scanOldest rest cur tc False, tr) \<in> set rest"
      and "tr \<le> tc" and "\<forall>p \<in> set rest. tr \<le> snd p"
      by blast
    with False a show ?thesis by (intro exI[of _ tr]) auto
  qed
qed

lemma scanOldest_min:
  assumes "xs \<noteq> []"
  shows "\<exists>tr. (scanOldest xs k t True, tr) \<in> set xs \<and> (\<forall>p \<in> set xs. tr \<le> snd p)"
proof (cases xs)
  case Nil
  with assms show ?thesis by simp
next
  case (Cons a rest)
  obtain key accessTime where a: "a = (key, accessTime)" by (cases a)
  from scanOldest_le[of rest key accessTime] obtain tr where
    "scanOldest rest key accessTime False = key \<and> tr = accessTime
       \<or> (scanOldest rest key accessTime False, tr) \<in> set rest"
    and "tr \<le> accessTime" and "\<forall>p \<in> set rest. tr \<le> snd p"
    by blast
  with Cons a show ?thesis by (intro exI[of _ tr]) auto
qed

lemma scanOldest_oldest:
  assumes "keys m \<noteq> {}"
  shows "\<exists>tr. DAList.lookup m (scanOldest (DAList.impl_of m) k t True) = Some tr
           \<and> (\<forall>k' t'. DAList.lookup m k' = Some t' \<longrightarrow> tr \<le> t')"
proof -
  let ?xs = "DAList.impl_of m"
  have dist: "distinct (map fst ?xs)" by simp
  from assms have "?xs \<noteq> []" by (auto simp: keys_def)
  from scanOldest_min[OF this, of k t] obtain tr where
    mem: "(scanOldest ?xs k t True, tr) \<in> set ?xs" and least: "\<forall>p \<in> set ?xs. tr \<le> snd p"
    by blast
  from dist mem have "map_of ?xs (scanOldest ?xs k t True) = Some tr" by (rule map_of_is_SomeI)
  then have 1: "DAList.lookup m (scanOldest ?xs k t True) = Some tr"
    by (simp add: DAList.lookup.rep_eq)
  have 2: "tr \<le> t'" if "DAList.lookup m k' = Some t'" for k' t'
  proof -
    from that have "map_of ?xs k' = Some t'" by (simp add: DAList.lookup.rep_eq)
    then have "(k', t') \<in> set ?xs" by (rule map_of_SomeD)
    with least show ?thesis by fastforce
  qed
  from 1 2 show ?thesis by blast
qed

lemma sum_delete:
  "distinct (map fst xs) \<Longrightarrow> map_of xs k = Some e \<Longrightarrow>
   sum_list (map (\<lambda>kv. f (snd kv)) (AList.delete k xs)) = sum_list (map (\<lambda>kv. f (snd kv)) xs) - (f e :: int)"
proof (induction xs)
  case Nil
  then show ?case by simp
next
  case (Cons a xs)
  then show ?case
    by (cases a) (auto simp: image_iff dest: map_of_SomeD)
qed

lemma totalSize_delete:
  "DAList.lookup (entries c) k = Some e \<Longrightarrow>
   totalSize (c\<lparr>entries := DAList.delete k (entries c)\<rparr>) = totalSize c - Entry_Size e"
  unfolding totalSize_def
  by (simp add: DAList.delete.rep_eq DAList.lookup.rep_eq sum_delete)

lemma sum_update_new:
  "k \<notin> fst ` set xs \<Longrightarrow>
   sum_list (map (\<lambda>kv. f (snd kv)) (AList.update k v xs)) = sum_list (map (\<lambda>kv. f (snd kv)) xs) + (f v :: int)"
  by (induction xs) auto

lemma sum_update_old:
  "distinct (map fst xs) \<Longrightarrow> map_of xs k = Some e \<Longrightarrow>
   sum_list (map (\<lambda>kv. f (snd kv)) (AList.update k v xs)) = sum_list (map (\<lambda>kv. f (snd kv)) xs) - f e + (f v :: int)"
proof (induction xs)
  case Nil
  then show ?case by simp
next
  case (Cons a xs)
  then show ?case
    by (cases a) (auto simp: image_iff dest: map_of_SomeD)
qed

lemma totalSize_update:
  "totalSize (c\<lparr>entries := DAList.update k v (entries c)\<rparr>) =
     (case DAList.lookup (entries c) k of
        None \<Rightarrow> totalSize c + Entry_Size v
      | Some e \<Rightarrow> totalSize c - Entry_Size e + Entry_Size v)"
  unfolding totalSize_def
  by (auto simp: DAList.update.rep_eq DAList.lookup.rep_eq sum_update_old sum_update_new
        map_of_eq_None_iff split: option.splits)

lemma evictLRU_cases:
  assumes "consistent c"
  shows "evictLRU c = c \<or>
         (\<exists>k e. k \<noteq> [] \<and> DAList.lookup (entries c) k = Some e \<and>
            (\<exists>t. DAList.lookup (accessLRU c) k = Some t
               \<and> (\<forall>k' t'. DAList.lookup (accessLRU c) k' = Some t' \<longrightarrow> t \<le> t')) \<and>
            evictLRU c = c\<lparr>memory := memory c - Entry_Size e,
                            entries := DAList.delete k (entries c),
                            accessLRU := DAList.delete k (accessLRU c),
                            evictions := evictions c + 1\<rparr>)"
proof (cases "len (entries c) = 0 \<or> scanOldest (DAList.impl_of (accessLRU c)) [] 0 True = []")
  case True
  then show ?thesis by (auto simp: evictLRU_def Let_def)
next
  case False
  define k where "k = scanOldest (DAList.impl_of (accessLRU c)) [] 0 True"
  from False have ne: "keys (accessLRU c) \<noteq> {}"
    using assms by (simp add: len_0_iff consistent_def)
  from scanOldest_oldest[OF ne, of "[]" 0]
  have old: "\<exists>t. DAList.lookup (accessLRU c) k = Some t
               \<and> (\<forall>k' t'. DAList.lookup (accessLRU c) k' = Some t' \<longrightarrow> t \<le> t')"
    unfolding k_def .
  then have "k \<in> keys (accessLRU c)" by (auto dest: lookup_Some_keys)
  then have "k \<in> keys (entries c)" using assms by (simp add: consistent_def)
  then obtain e where e: "DAList.lookup (entries c) k = Some e"
    using lookup_None_iff[of "entries c" k] by (cases "DAList.lookup (entries c) k") auto
  from False have ne: "k \<noteq> []" by (simp add: k_def)
  have "evictLRU c = c\<lparr>memory := memory c - Entry_Size e,
                            entries := DAList.delete k (entries c),
                            accessLRU := DAList.delete k (accessLRU c),
                            evictions := evictions c + 1\<rparr>"
    using False e ne by (simp add: evictLRU_def Let_def k_def[symmetric])
  with ne e old show ?thesis by blast
qed

lemma evictLRU_progress:
  assumes "consistent c" "0 < len (entries c)" "[] \<notin> keys (entries c)"
  shows "\<exists>k e. k \<noteq> [] \<and> DAList.lookup (entries c) k = Some e \<and>
            evictLRU c = c\<lparr>memory := memory c - Entry_Size e,
                            entries := DAList.delete k (entries c),
                            accessLRU := DAList.delete k (accessLRU c),
                            evictions := evictions c + 1\<rparr>"
proof -
  define k where "k = scanOldest (DAList.impl_of (accessLRU c)) [] 0 True"
  from assms have ne: "keys (accessLRU c) \<noteq> {}"
    using len_0_iff[of "entries c"] by (auto simp: consistent_def)
  then have "DAList.impl_of (accessLRU c) \<noteq> []" by (auto simp: keys_def)
  then have "k \<in> keys (accessLRU c)"
    unfolding k_def keys_def by (rule scanOldest_first)
  then have kin: "k \<in> keys (entries c)" using assms by (simp add: consistent_def)
  then obtain e where e: "DAList.lookup (entries c) k = Some e"
    using lookup_None_iff[of "entries c" k] by (cases "DAList.lookup (entries c) k") auto
  from kin assms have "k \<noteq> []" by auto
  with assms e show ?thesis
    by (auto simp: evictLRU_def Let_def k_def[symmetric] intro!: exI[of _ k])
qed

lemma evictsTo_refl: "consistent c \<Longrightarrow> evictsTo c c"
  by (auto simp: evictsTo_def consistent_def dest: lookup_Some_keys)

lemma evictsTo_trans:
  assumes ab: "evictsTo a b" and bc: "evictsTo b c"
  shows "evictsTo a c"
proof -
  have lru: "t \<le> t'"
    if k: "DAList.lookup (accessLRU a) k = Some t" and out: "k \<notin> keys (entries c)"
      and k': "DAList.lookup (accessLRU a) k' = Some t'" and kept: "k' \<in> keys (entries c)"
    for k t k' t'
  proof -
    from bc kept have k'b: "k' \<in> keys (entries b)" by (auto simp: evictsTo_def)
    show ?thesis
    proof (cases "k \<in> keys (entries b)")
      case False
      with ab k k' k'b show ?thesis unfolding evictsTo_def by blast
    next
      case True
      with ab k have 1: "DAList.lookup (accessLRU b) k = Some t" by (simp add: evictsTo_def)
      from ab k' k'b have 2: "DAList.lookup (accessLRU b) k' = Some t'" by (simp add: evictsTo_def)
      from bc 1 2 out kept show ?thesis unfolding evictsTo_def by blast
    qed
  qed
  have rest: "consistent c
     \<and> memory c - totalSize c = memory a - totalSize a
     \<and> maxSize c = maxSize a \<and> maxMemory c = maxMemory a
     \<and> maxTTL c = maxTTL a \<and> minTTL c = minTTL a \<and> ttl c = ttl a
     \<and> hits c = hits a \<and> misses c = misses a
     \<and> keys (entries c) \<subseteq> keys (entries a)
     \<and> (\<forall>k \<in> keys (entries c).
           DAList.lookup (entries c) k = DAList.lookup (entries a) k
           \<and> DAList.lookup (accessLRU c) k = DAList.lookup (accessLRU a) k)
     \<and> evictions c = evictions a + int (len (entries a)) - int (len (entries c))"
    using ab bc unfolding evictsTo_def by (intro conjI; (force | simp))
  from rest lru show ?thesis unfolding evictsTo_def by blast
qed

lemma evictsTo_step:
  assumes "consistent c"
  shows "evictsTo c (evictLRU c)"
proof -
  from evictLRU_cases[OF assms] show ?thesis
  proof
    assume "evictLRU c = c"
    then show ?thesis using assms by (simp add: evictsTo_refl)
  next
    assume "\<exists>k e. k \<noteq> [] \<and> DAList.lookup (entries c) k = Some e \<and>
            (\<exists>t. DAList.lookup (accessLRU c) k = Some t
               \<and> (\<forall>k' t'. DAList.lookup (accessLRU c) k' = Some t' \<longrightarrow> t \<le> t')) \<and>
            evictLRU c = c\<lparr>memory := memory c - Entry_Size e,
                            entries := DAList.delete k (entries c),
                            accessLRU := DAList.delete k (accessLRU c),
                            evictions := evictions c + 1\<rparr>"
    then obtain k e t where ke: "DAList.lookup (entries c) k = Some e"
      and kt: "DAList.lookup (accessLRU c) k = Some t"
      and least: "\<forall>k' t'. DAList.lookup (accessLRU c) k' = Some t' \<longrightarrow> t \<le> t'"
      and ev: "evictLRU c = c\<lparr>memory := memory c - Entry_Size e,
                            entries := DAList.delete k (entries c),
                            accessLRU := DAList.delete k (accessLRU c),
                            evictions := evictions c + 1\<rparr>"
      by blast
    have kin: "k \<in> keys (entries c)"
      using ke lookup_None_iff[of "entries c" k] by auto
    then have pos: "0 < len (entries c)"
      using len_0_iff[of "entries c"] by auto
    have tot: "totalSize (evictLRU c) = totalSize c - Entry_Size e"
      using totalSize_delete[OF ke] by (simp add: ev totalSize_def)
    have lru: "t0 \<le> t'"
      if k0: "DAList.lookup (accessLRU c) k0 = Some t0" and out: "k0 \<notin> keys (entries (evictLRU c))"
        and k': "DAList.lookup (accessLRU c) k' = Some t'"
      for k0 t0 k' t'
    proof -
      from k0 have "k0 \<in> keys (entries c)"
        using assms by (auto simp: consistent_def dest: lookup_Some_keys)
      with out have "k0 = k" by (simp add: ev keys_delete)
      with k0 kt have "t0 = t" by simp
      with least k' show ?thesis by blast
    qed
    have rest: "consistent (evictLRU c)
     \<and> memory (evictLRU c) - totalSize (evictLRU c) = memory c - totalSize c
     \<and> maxSize (evictLRU c) = maxSize c \<and> maxMemory (evictLRU c) = maxMemory c
     \<and> maxTTL (evictLRU c) = maxTTL c \<and> minTTL (evictLRU c) = minTTL c \<and> ttl (evictLRU c) = ttl c
     \<and> hits (evictLRU c) = hits c \<and> misses (evictLRU c) = misses c
     \<and> keys (entries (evictLRU c)) \<subseteq> keys (entries c)
     \<and> (\<forall>k \<in> keys (entries (evictLRU c)).
           DAList.lookup (entries (evictLRU c)) k = DAList.lookup (entries c) k
           \<and> DAList.lookup (accessLRU (evictLRU c)) k = DAList.lookup (accessLRU c) k)
     \<and> evictions (evictLRU c) = evictions c + int (len (entries c)) - int (len (entries (evictLRU c)))"
      using assms kin pos tot
      by (auto simp: ev consistent_def keys_delete len_delete)
    from rest lru show ?thesis unfolding evictsTo_def by blast
  qed
qed

lemma evictLoop_result:
  assumes "evictLoop c n = Some c2" and "consistent c"
  shows "evictsTo c c2 \<and>
         \<not> ((maxSize c2 \<le> int (len (entries c2)) \<or> maxMemory c2 < memory c2 + n)
              \<and> 0 < len (entries c2))"
proof -
  let ?Q = "\<lambda>c n c2. consistent c \<longrightarrow> evictsTo c c2 \<and>
         \<not> ((maxSize c2 \<le> int (len (entries c2)) \<or> maxMemory c2 < memory c2 + n)
              \<and> 0 < len (entries c2))"
  have "?Q c n c2"
  proof (rule evictLoop.raw_induct[where P = ?Q, OF _ assms(1)])
    fix lp c n c2
    assume ih: "\<And>c n c2. lp c n = Some c2 \<Longrightarrow> ?Q c n c2"
      and eq: "(if (maxSize c \<le> int (len (entries c)) \<or> maxMemory c < memory c + n)
                   \<and> 0 < len (entries c)
                then lp (evictLRU c) n else Some c) = Some c2"
    show "?Q c n c2"
    proof
      assume con: "consistent c"
      show "evictsTo c c2 \<and>
         \<not> ((maxSize c2 \<le> int (len (entries c2)) \<or> maxMemory c2 < memory c2 + n)
              \<and> 0 < len (entries c2))"
      proof (cases "(maxSize c \<le> int (len (entries c)) \<or> maxMemory c < memory c + n)
                     \<and> 0 < len (entries c)")
        case True
        with eq have "lp (evictLRU c) n = Some c2" by simp
        note ih = ih[OF this]
        have step: "evictsTo c (evictLRU c)" by (rule evictsTo_step[OF con])
        then have "consistent (evictLRU c)" by (simp add: evictsTo_def)
        with ih have rest: "evictsTo (evictLRU c) c2"
          and stop: "\<not> ((maxSize c2 \<le> int (len (entries c2)) \<or> maxMemory c2 < memory c2 + n)
              \<and> 0 < len (entries c2))"
          by blast+
        from evictsTo_trans[OF step rest] stop show ?thesis by blast
      next
        case False
        with eq have "c2 = c" by auto
        with False con show ?thesis by (auto simp: evictsTo_refl)
      qed
    qed
  qed
  with assms(2) show ?thesis by simp
qed

lemma evictLoop_returns:
  assumes "consistent c" and "[] \<notin> keys (entries c)"
  shows "\<exists>c2. evictLoop c n = Some c2"
  using assms
proof (induction "len (entries c)" arbitrary: c rule: less_induct)
  case less
  show ?case
  proof (cases "(maxSize c \<le> int (len (entries c)) \<or> maxMemory c < memory c + n)
                     \<and> 0 < len (entries c)")
    case True
    then have pos: "0 < len (entries c)" by simp
    from evictLRU_progress[OF less.prems(1) pos less.prems(2)]
    obtain k e where ke: "DAList.lookup (entries c) k = Some e"
      and ev: "evictLRU c = c\<lparr>memory := memory c - Entry_Size e,
                            entries := DAList.delete k (entries c),
                            accessLRU := DAList.delete k (accessLRU c),
                            evictions := evictions c + 1\<rparr>"
      by blast
    have kin: "k \<in> keys (entries c)"
      using ke lookup_None_iff[of "entries c" k] by auto
    have smaller: "len (entries (evictLRU c)) < len (entries c)"
      using kin pos by (simp add: ev len_delete)
    have con: "consistent (evictLRU c)"
      using evictsTo_step[OF less.prems(1)] by (simp add: evictsTo_def)
    have nokey: "[] \<notin> keys (entries (evictLRU c))"
      using less.prems(2) by (simp add: ev keys_delete)
    from less.hyps[OF smaller con nokey] obtain c2 where "evictLoop (evictLRU c) n = Some c2"
      by blast
    with True show ?thesis by (subst evictLoop.simps) simp
  next
    case False
    then show ?thesis by (subst evictLoop.simps) auto
  qed
qed

section \<open>What \<open>Set\<close> leaves behind\<close>

lemma Entry_Size_pos: "0 < Entry_Size e"
  by (simp add: Entry_Size_def)

lemma released_nonneg: "0 \<le> released c key"
  using Entry_Size_pos[of "the (DAList.lookup (entries c) key)"]
  by (auto simp: released_def split: option.splits)

lemma Set_SomeD:
  assumes "Set c key data t etag lm now1 now2 = Some c'"
  defines "newEntry \<equiv> \<lparr>Data = data, Expiry = now1 + clampTTL c t, ETag = etag, LastModified = lm\<rparr>"
  shows "\<exists>c2. evictLoop (c\<lparr>memory := memory c - released c key\<rparr>) (Entry_Size newEntry) = Some c2
           \<and> c' = c2\<lparr>entries := DAList.update key newEntry (entries c2),
                      accessLRU := DAList.update key now2 (accessLRU c2),
                      memory := memory c2 + Entry_Size newEntry\<rparr>"
  using assms(1) unfolding newEntry_def
  by (auto simp: Set_def Let_def released_def split: option.splits)

lemma Set_mid:
  assumes set: "Set c key data t etag lm now1 now2 = Some c'" and con: "consistent c"
  defines "newEntry \<equiv> \<lparr>Data = data, Expiry = now1 + clampTTL c t, ETag = etag, LastModified = lm\<rparr>"
  shows "\<exists>c2. evictsTo (c\<lparr>memory := memory c - released c key\<rparr>) c2
           \<and> (len (entries c2) = 0 \<or>
                int (len (entries c2)) < maxSize c \<and> memory c2 + Entry_Size newEntry \<le> maxMemory c)
           \<and> c' = c2\<lparr>entries := DAList.update key newEntry (entries c2),
                      accessLRU := DAList.update key now2 (accessLRU c2),
                      memory := memory c2 + Entry_Size newEntry\<rparr>"
proof -
  from Set_SomeD[OF set] obtain c2 where
    loop: "evictLoop (c\<lparr>memory := memory c - released c key\<rparr>) (Entry_Size newEntry) = Some c2"
    and c': "c' = c2\<lparr>entries := DAList.update key newEntry (entries c2),
                      accessLRU := DAList.update key now2 (accessLRU c2),
                      memory := memory c2 + Entry_Size newEntry\<rparr>"
    unfolding newEntry_def by blast
  have con1: "consistent (c\<lparr>memory := memory c - released c key\<rparr>)"
    using con by (simp add: consistent_def)
  from evictLoop_result[OF loop con1]
  have ev: "evictsTo (c\<lparr>memory := memory c - released c key\<rparr>) c2"
    and stop: "\<not> ((maxSize c2 \<le> int (len (entries c2)) \<or> maxMemory c2 < memory c2 + Entry_Size newEntry)
              \<and> 0 < len (entries c2))"
    by blast+
  from ev have "maxSize c2 = maxSize c" "maxMemory c2 = maxMemory c"
    by (simp_all add: evictsTo_def)
  with stop have "len (entries c2) = 0 \<or>
                int (len (entries c2)) < maxSize c \<and> memory c2 + Entry_Size newEntry \<le> maxMemory c"
    by auto
  with ev c' show ?thesis by blast
qed

lemma Set_returns:
  assumes "consistent c" and "[] \<notin> keys (entries c)"
  shows "\<exists>c'. Set c key data t etag lm now1 now2 = Some c'"
proof -
  let ?n = "Entry_Size \<lparr>Data = data, Expiry = now1 + clampTTL c t, ETag = etag, LastModified = lm\<rparr>"
  let ?c1 = "case DAList.lookup (entries c) key of
                  Some oldEntry \<Rightarrow> c\<lparr>memory := memory c - Entry_Size oldEntry\<rparr>
                | None \<Rightarrow> c"
  have "consistent ?c1" "[] \<notin> keys (entries ?c1)"
    using assms by (auto simp: consistent_def split: option.splits)
  from evictLoop_returns[OF this] obtain c2 where "evictLoop ?c1 ?n = Some c2" by blast
  then show ?thesis by (simp add: Set_def Let_def)
qed

lemma storeInv_Set:
  assumes "Set c key data t etag lm now1 now2 = Some c'" and "storeInv c"
  shows "storeInv c'"
proof -
  let ?newEntry = "\<lparr>Data = data, Expiry = now1 + clampTTL c t, ETag = etag, LastModified = lm\<rparr>"
  let ?c1 = "c\<lparr>memory := memory c - released c key\<rparr>"
  from assms(2) have con: "consistent c" and mem: "memory c \<le> totalSize c"
    by (simp_all add: storeInv_def)
  from Set_mid[OF assms(1) con] obtain c2 where
    ev: "evictsTo ?c1 c2"
    and c': "c' = c2\<lparr>entries := DAList.update key ?newEntry (entries c2),
                      accessLRU := DAList.update key now2 (accessLRU c2),
                      memory := memory c2 + Entry_Size ?newEntry\<rparr>"
    by blast
  have tot1: "totalSize ?c1 = totalSize c" by (simp add: totalSize_def)
  from ev have con2: "consistent c2"
    and diff: "memory c2 - totalSize c2 = memory c - released c key - totalSize c"
    and same: "\<forall>k \<in> keys (entries c2). DAList.lookup (entries c2) k = DAList.lookup (entries c) k"
    by (simp_all add: evictsTo_def tot1)
  have rel: "released c2 key \<le> released c key"
  proof (cases "key \<in> keys (entries c2)")
    case True
    with same show ?thesis by (simp add: released_def)
  next
    case False
    then have "released c2 key = 0"
      using lookup_None_iff[of "entries c2" key] by (simp add: released_def)
    then show ?thesis using released_nonneg[of c key] by simp
  qed
  have tot': "totalSize c' = totalSize c2 - released c2 key + Entry_Size ?newEntry"
    using totalSize_update[where c=c2 and k=key and v="?newEntry"]
    by (auto simp: c' totalSize_def released_def split: option.splits)
  show "storeInv c'"
    unfolding storeInv_def
  proof
    show "consistent c'" using con2 by (simp add: c' consistent_def keys_update)
    show "memory c' \<le> totalSize c'"
      using diff mem rel by (simp add: tot') (simp add: c')
  qed
qed

lemma Set_bounds:
  assumes set: "Set c key data t etag lm now1 now2 = Some c'"
    and inv: "storeInv c" and cap: "1 \<le> maxSize c"
  defines "newEntry \<equiv> \<lparr>Data = data, Expiry = now1 + clampTTL c t, ETag = etag, LastModified = lm\<rparr>"
  shows "int (len (entries c')) \<le> maxSize c"
    and "memory c' \<le> maxMemory c \<or> (maxMemory c < Entry_Size newEntry \<and> keys (entries c') = {key})"
    and "storeInv c'"
    and "maxSize c' = maxSize c \<and> maxMemory c' = maxMemory c"
proof -
  let ?c1 = "c\<lparr>memory := memory c - released c key\<rparr>"
  from inv have con: "consistent c" and mem: "memory c \<le> totalSize c"
    by (simp_all add: storeInv_def)
  from Set_mid[OF set con] obtain c2 where
    ev: "evictsTo ?c1 c2"
    and room: "len (entries c2) = 0 \<or>
                int (len (entries c2)) < maxSize c \<and> memory c2 + Entry_Size newEntry \<le> maxMemory c"
    and c': "c' = c2\<lparr>entries := DAList.update key newEntry (entries c2),
                      accessLRU := DAList.update key now2 (accessLRU c2),
                      memory := memory c2 + Entry_Size newEntry\<rparr>"
    unfolding newEntry_def by blast
  have tot1: "totalSize ?c1 = totalSize c" by (simp add: totalSize_def)
  from ev have con2: "consistent c2"
    and diff: "memory c2 - totalSize c2 = memory c - released c key - totalSize c"
    and par: "maxSize c2 = maxSize c" "maxMemory c2 = maxMemory c"
    and sub: "keys (entries c2) \<subseteq> keys (entries c)"
    and same: "\<forall>k \<in> keys (entries c2). DAList.lookup (entries c2) k = DAList.lookup (entries c) k"
    by (simp_all add: evictsTo_def tot1)
  show "int (len (entries c')) \<le> maxSize c"
    using room cap by (auto simp: c' len_update)
  show "maxSize c' = maxSize c \<and> maxMemory c' = maxMemory c"
    using par by (simp add: c')
  show "storeInv c'" by (rule storeInv_Set[OF set inv])
  show "memory c' \<le> maxMemory c \<or> (maxMemory c < Entry_Size newEntry \<and> keys (entries c') = {key})"
    using room
  proof
    assume empty: "len (entries c2) = 0"
    then have k0: "keys (entries c2) = {}" by (simp add: len_0_iff)
    then have "DAList.impl_of (entries c2) = []" by (simp add: keys_def)
    then have "totalSize c2 = 0" by (simp add: totalSize_def)
    with diff mem released_nonneg[of c key] have "memory c2 \<le> 0" by simp
    then have "memory c' \<le> Entry_Size newEntry" by (simp add: c')
    moreover have "keys (entries c') = {key}" using k0 by (simp add: c' keys_update)
    ultimately show ?thesis by linarith
  next
    assume "int (len (entries c2)) < maxSize c \<and> memory c2 + Entry_Size newEntry \<le> maxMemory c"
    then show ?thesis by (simp add: c')
  qed
qed

section \<open>The invariant holds in every store that can arise\<close>

lemma storeInv_New: "storeInv (NewCacheWithMemoryLimit ms d mn mm mx)"
  by (simp add: storeInv_def consistent_def totalSize_def keys_def NewCacheWithMemoryLimit_def
      DAList.empty.rep_eq)

lemma storeInv_Get: "storeInv c \<Longrightarrow> storeInv (snd (Get c key now1 now2))"
proof (cases "DAList.lookup (entries c) key")
  case None
  assume "storeInv c"
  with None show ?thesis
    by (simp add: Get_def storeInv_def consistent_def totalSize_def)
next
  case (Some e)
  assume inv: "storeInv c"
  show ?thesis
  proof (cases "IsExpired e now1")
    case True
    have "totalSize (c\<lparr>entries := DAList.delete key (entries c)\<rparr>) = totalSize c - Entry_Size e"
      by (rule totalSize_delete[OF Some])
    then have "totalSize (snd (Get c key now1 now2)) = totalSize c - Entry_Size e"
      using Some True by (simp add: Get_def totalSize_def)
    with inv Some True show ?thesis
      by (simp add: storeInv_def consistent_def Get_def keys_delete)
  next
    case False
    with inv Some lookup_Some_keys[OF Some] show ?thesis
      by (auto simp: storeInv_def consistent_def Get_def keys_update totalSize_def)
  qed
qed

lemma storeInv_Delete: "storeInv c \<Longrightarrow> storeInv (Delete c key)"
proof (cases "DAList.lookup (entries c) key")
  case None
  assume "storeInv c"
  with None lookup_None_iff[of "entries c" key] show ?thesis
    by (simp add: Delete_def storeInv_def consistent_def totalSize_def delete_absent keys_delete)
next
  case (Some e)
  assume inv: "storeInv c"
  have "totalSize (c\<lparr>entries := DAList.delete key (entries c)\<rparr>) = totalSize c - Entry_Size e"
    by (rule totalSize_delete[OF Some])
  then have "totalSize (Delete c key) = totalSize c - Entry_Size e"
    using Some by (simp add: Delete_def totalSize_def)
  with inv Some show ?thesis
    by (simp add: storeInv_def consistent_def Delete_def keys_delete)
qed

lemma storeInv_Clear: "storeInv (Clear c)"
  by (simp add: storeInv_def consistent_def totalSize_def keys_def Clear_def DAList.empty.rep_eq)

lemma storeInv_cleanupLoop:
  assumes "storeInv c" and "distinct (map fst xs)"
    and "\<forall>(k, e) \<in> set xs. DAList.lookup (entries c) k = Some e"
  shows "storeInv (snd (cleanupLoop xs now c removed))"
  using assms
proof (induction xs arbitrary: c removed)
  case Nil
  then show ?case by simp
next
  case (Cons a xs)
  obtain k e where a: "a = (k, e)" by (cases a)
  from Cons.prems(3) a have ke: "DAList.lookup (entries c) k = Some e" by simp
  show ?case
  proof (cases "Expiry e < now")
    case True
    let ?c = "c\<lparr>memory := memory c - Entry_Size e,
                entries := DAList.delete k (entries c),
                accessLRU := DAList.delete k (accessLRU c)\<rparr>"
    have "totalSize (c\<lparr>entries := DAList.delete k (entries c)\<rparr>) = totalSize c - Entry_Size e"
      by (rule totalSize_delete[OF ke])
    then have "totalSize ?c = totalSize c - Entry_Size e" by (simp add: totalSize_def)
    with Cons.prems(1) have inv: "storeInv ?c"
      by (simp add: storeInv_def consistent_def keys_delete)
    have dist: "distinct (map fst xs)" using Cons.prems(2) by simp
    have "\<forall>(k', e') \<in> set xs. DAList.lookup (entries ?c) k' = Some e'"
      using Cons.prems(2,3) a by (fastforce simp: image_iff)
    from Cons.IH[OF inv dist this] True a show ?thesis by simp
  next
    case False
    have dist: "distinct (map fst xs)" using Cons.prems(2) by simp
    have "\<forall>(k', e') \<in> set xs. DAList.lookup (entries c) k' = Some e'"
      using Cons.prems(3) by auto
    from Cons.IH[OF Cons.prems(1) dist this] False a show ?thesis by simp
  qed
qed

lemma storeInv_CleanupExpired: "storeInv c \<Longrightarrow> storeInv (snd (CleanupExpired c now))"
  unfolding CleanupExpired_def
  by (rule storeInv_cleanupLoop) (auto simp: DAList.lookup.rep_eq)

lemma storeInv_applyOp: "storeInv c \<Longrightarrow> applyOp c op = Some c' \<Longrightarrow> storeInv c'"
  by (cases op)
    (auto simp: storeInv_Get storeInv_Delete storeInv_Clear storeInv_CleanupExpired
      intro: storeInv_Set)

lemma storeInv_run: "storeInv c \<Longrightarrow> run c ops = Some c' \<Longrightarrow> storeInv c'"
  by (induction ops arbitrary: c) (auto split: option.splits dest: storeInv_applyOp)

lemma limits_cleanupLoop:
  "maxSize (snd (cleanupLoop xs now c removed)) = maxSize c
   \<and> maxMemory (snd (cleanupLoop xs now c removed)) = maxMemory c"
  by (induction xs now c removed rule: cleanupLoop.induct) auto

lemma limits_applyOp:
  assumes "storeInv c" and "applyOp c op = Some c'"
  shows "maxSize c' = maxSize c \<and> maxMemory c' = maxMemory c"
proof (cases op)
  case (OpSet key data t etag lm now1 now2)
  with assms(2) have set: "Set c key data t etag lm now1 now2 = Some c'" by simp
  from assms(1) have "consistent c" by (simp add: storeInv_def)
  from Set_mid[OF set this] show ?thesis by (auto simp: evictsTo_def)
next
  case (OpGet key now1 now2)
  with assms(2) show ?thesis by (auto simp: Get_def split: option.splits)
next
  case (OpDelete key)
  with assms(2) show ?thesis by (auto simp: Delete_def Let_def split: option.splits)
next
  case OpClear
  with assms(2) show ?thesis by (auto simp: Clear_def)
next
  case (OpCleanupExpired now)
  with assms(2) show ?thesis by (auto simp: CleanupExpired_def limits_cleanupLoop)
qed

lemma reachable_store:
  assumes "storeInv c0" and "run c0 ops = Some c"
  shows "storeInv c \<and> maxSize c = maxSize c0 \<and> maxMemory c = maxMemory c0"
  using assms
proof (induction ops arbitrary: c0)
  case Nil
  then show ?case by simp
next
  case (Cons op ops)
  from Cons.prems(2) obtain c1 where step: "applyOp c0 op = Some c1" and rest: "run c1 ops = Some c"
    by (auto split: option.splits)
  from storeInv_applyOp[OF Cons.prems(1) step] have inv1: "storeInv c1" .
  from Cons.IH[OF inv1 rest] limits_applyOp[OF Cons.prems(1) step] show ?case by simp
qed

lemma Get_keeps:
  "keys (entries (snd (Get c key now1 now2))) \<subseteq> keys (entries c)
   \<and> minTTL (snd (Get c key now1 now2)) = minTTL c
   \<and> maxTTL (snd (Get c key now1 now2)) = maxTTL c"
  by (auto simp: Get_def keys_delete split: option.splits)

lemma ttls_cleanupLoop:
  "minTTL (snd (cleanupLoop xs now c removed)) = minTTL c
   \<and> maxTTL (snd (cleanupLoop xs now c removed)) = maxTTL c"
  by (induction xs now c removed rule: cleanupLoop.induct) auto

lemma ttls_applyOp:
  assumes "storeInv c" and "applyOp c op = Some c'"
  shows "minTTL c' = minTTL c \<and> maxTTL c' = maxTTL c"
proof (cases op)
  case (OpSet key data t etag lm now1 now2)
  with assms(2) have set: "Set c key data t etag lm now1 now2 = Some c'" by simp
  from assms(1) have "consistent c" by (simp add: storeInv_def)
  from Set_mid[OF set this] show ?thesis by (auto simp: evictsTo_def)
next
  case (OpGet key now1 now2)
  with assms(2) show ?thesis by (auto simp: Get_def split: option.splits)
next
  case (OpDelete key)
  with assms(2) show ?thesis by (auto simp: Delete_def Let_def split: option.splits)
next
  case OpClear
  with assms(2) show ?thesis by (auto simp: Clear_def)
next
  case (OpCleanupExpired now)
  with assms(2) show ?thesis by (auto simp: CleanupExpired_def ttls_cleanupLoop)
qed

lemma reachable_ttls:
  assumes "storeInv c0" and "run c0 ops = Some c"
  shows "minTTL c = minTTL c0 \<and> maxTTL c = maxTTL c0"
  using assms
proof (induction ops arbitrary: c0)
  case Nil
  then show ?case by simp
next
  case (Cons op ops)
  from Cons.prems(2) obtain c1 where step: "applyOp c0 op = Some c1" and rest: "run c1 ops = Some c"
    by (auto split: option.splits)
  from storeInv_applyOp[OF Cons.prems(1) step] have inv1: "storeInv c1" .
  from Cons.IH[OF inv1 rest] ttls_applyOp[OF Cons.prems(1) step] show ?case by simp
qed

lemma reachable_New:
  assumes "run (NewCacheWithMemoryLimit ms d mn mm mx) ops = Some c"
  shows "storeInv c" "maxSize c = ms" "maxMemory c = mm" "minTTL c = mn" "maxTTL c = mx"
  using reachable_store[OF storeInv_New assms] reachable_ttls[OF storeInv_New assms]
  by (simp_all add: NewCacheWithMemoryLimit_def)

section \<open>TTL clamping\<close>

lemma clampTTL_value:
  "clampTTL c t =
     (if maxTTL c < minTTL c then maxTTL c
      else if t < minTTL c then minTTL c else if maxTTL c < t then maxTTL c else t)"
  by (auto simp: clampTTL_def Let_def)

lemma Set_stores:
  assumes "Set c key data t etag lm now1 now2 = Some c'"
  shows "DAList.lookup (entries c') key =
           Some \<lparr>Data = data, Expiry = now1 + clampTTL c t, ETag = etag, LastModified = lm\<rparr>"
  using assms by (auto simp: Set_def Let_def split: option.splits)

section \<open>Evaluating the loop on a given store\<close>

lemma evictLoop_stop:
  "\<not> ((maxSize c \<le> int (len (entries c)) \<or> maxMemory c < memory c + n) \<and> 0 < len (entries c))
   \<Longrightarrow> evictLoop c n = Some c"
  by (subst evictLoop.simps) auto

lemma evictLoop_step:
  "(maxSize c \<le> int (len (entries c)) \<or> maxMemory c < memory c + n) \<and> 0 < len (entries c)
   \<Longrightarrow> evictLoop c n = evictLoop (evictLRU c) n"
  by (subst evictLoop.simps) simp

lemmas alist_eval =
  len_def DAList.update.rep_eq DAList.delete.rep_eq DAList.empty.rep_eq DAList.lookup.rep_eq

lemmas dur_eval = Second_def Minute_def Hour_def

lemma Set_fresh_store:
  "0 < ms \<Longrightarrow> int (length data + length etag + length lm + 24) \<le> mm \<Longrightarrow>
   Set (NewCacheWithMemoryLimit ms d mn mm mx) key data t etag lm now1 now2 =
     Some ((NewCacheWithMemoryLimit ms d mn mm mx)
        \<lparr>entries := DAList.update key
             \<lparr>Data = data, Expiry = now1 + clampTTL (NewCacheWithMemoryLimit ms d mn mm mx) t,
              ETag = etag, LastModified = lm\<rparr> DAList.empty,
         accessLRU := DAList.update key now2 DAList.empty,
         memory := int (length data + length etag + length lm + 24)\<rparr>)"
  by (simp add: Set_def Let_def NewCacheWithMemoryLimit_def evictLoop_stop alist_eval Entry_Size_def)


lemma evictLoop_stuck:
  assumes "evictLRU c = c"
    and "(maxSize c \<le> int (len (entries c)) \<or> maxMemory c < memory c + n) \<and> 0 < len (entries c)"
  shows "evictLoop c n = None"
proof (cases "evictLoop c n")
  case None
  then show ?thesis .
next
  case (Some y)
  let ?Q = "\<lambda>c n (y::Cache). \<not> (evictLRU c = c \<and>
      (maxSize c \<le> int (len (entries c)) \<or> maxMemory c < memory c + n) \<and> 0 < len (entries c))"
  have "?Q c n y"
  proof (rule evictLoop.raw_induct[where P = ?Q, OF _ Some])
    fix lp c n y
    assume ih: "\<And>c n y. lp c n = Some y \<Longrightarrow> ?Q c n y"
      and eq: "(if (maxSize c \<le> int (len (entries c)) \<or> maxMemory c < memory c + n)
                   \<and> 0 < len (entries c)
                then lp (evictLRU c) n else Some c) = Some y"
    show "?Q c n y"
    proof
      assume a: "evictLRU c = c \<and>
        (maxSize c \<le> int (len (entries c)) \<or> maxMemory c < memory c + n) \<and> 0 < len (entries c)"
      with eq have "lp c n = Some y" by simp
      from ih[OF this] a show False by blast
    qed
  qed
  with assms show ?thesis by blast
qed

lemma Set_no_eviction:
  fixes c :: Cache
  defines "new \<equiv> \<lambda>data t etag lm now1.
      \<lparr>Data = data, Expiry = now1 + clampTTL c t, ETag = etag, LastModified = lm\<rparr>"
  assumes "DAList.lookup (entries c) key = None"
    and "int (len (entries c)) < maxSize c"
    and "memory c + Entry_Size (new data t etag lm now1) \<le> maxMemory c"
  shows "Set c key data t etag lm now1 now2 =
     Some (c\<lparr>entries := DAList.update key (new data t etag lm now1) (entries c),
              accessLRU := DAList.update key now2 (accessLRU c),
              memory := memory c + Entry_Size (new data t etag lm now1)\<rparr>)"
  using assms(2-) unfolding new_def by (simp add: Set_def Let_def evictLoop_stop)

lemma Set_one_eviction:
  fixes c :: Cache
  defines "new \<equiv> \<lambda>data t etag lm now1.
      \<lparr>Data = data, Expiry = now1 + clampTTL c t, ETag = etag, LastModified = lm\<rparr>"
  assumes "DAList.lookup (entries c) key = None"
    and "maxSize c = int (len (entries c))" and "0 < len (entries c)"
    and "scanOldest (DAList.impl_of (accessLRU c)) [] 0 True = k" and "k \<noteq> []"
    and "DAList.lookup (entries c) k = Some e"
    and "memory c - Entry_Size e + Entry_Size (new data t etag lm now1) \<le> maxMemory c"
  shows "Set c key data t etag lm now1 now2 =
     Some (c\<lparr>entries := DAList.update key (new data t etag lm now1) (DAList.delete k (entries c)),
              accessLRU := DAList.update key now2 (DAList.delete k (accessLRU c)),
              evictions := evictions c + 1,
              memory := memory c - Entry_Size e + Entry_Size (new data t etag lm now1)\<rparr>)"
proof -
  define n where "n = Entry_Size (new data t etag lm now1)"
  let ?c1 = "c\<lparr>memory := memory c - Entry_Size e,
                   entries := DAList.delete k (entries c),
                   accessLRU := DAList.delete k (accessLRU c),
                   evictions := evictions c + 1\<rparr>"
  have ev: "evictLRU c = ?c1" using assms(3-) by (simp add: evictLRU_def Let_def)
  have kin: "k \<in> keys (entries c)" using assms(7) by (rule lookup_Some_keys)
  have l1: "len (entries ?c1) = len (entries c) - 1" using kin by (simp add: len_delete)
  have step: "evictLoop c n = evictLoop ?c1 n"
    using assms(3,4) by (simp add: evictLoop_step ev)
  have stop: "evictLoop ?c1 n = Some ?c1"
    using assms(3,4,8) l1 unfolding n_def[symmetric] by (intro evictLoop_stop) auto
  have "Set c key data t etag lm now1 now2 =
     (case evictLoop c n of None \<Rightarrow> None
      | Some c2 \<Rightarrow> Some (c2\<lparr>entries := DAList.update key (new data t etag lm now1) (entries c2),
                       accessLRU := DAList.update key now2 (accessLRU c2),
                       memory := memory c2 + n\<rparr>))"
    using assms(2) unfolding n_def new_def by (simp add: Set_def Let_def)
  also have "\<dots> = Some (?c1\<lparr>entries := DAList.update key (new data t etag lm now1) (entries ?c1),
                       accessLRU := DAList.update key now2 (accessLRU ?c1),
                       memory := memory ?c1 + n\<rparr>)"
    by (simp only: step stop option.case)
  finally show ?thesis by (simp add: n_def)
qed

lemma Set_overwrite_one_eviction:
  fixes c :: Cache
  defines "new \<equiv> \<lambda>data t etag lm now1.
      \<lparr>Data = data, Expiry = now1 + clampTTL c t, ETag = etag, LastModified = lm\<rparr>"
  assumes "DAList.lookup (entries c) key = Some old"
    and "maxMemory c < memory c - Entry_Size old + Entry_Size (new data t etag lm now1)"
    and "0 < len (entries c)"
    and "scanOldest (DAList.impl_of (accessLRU c)) [] 0 True = key" and "key \<noteq> []"
    and "int (len (entries c)) - 1 < maxSize c"
    and "memory c - 2 * Entry_Size old + Entry_Size (new data t etag lm now1) \<le> maxMemory c"
  shows "Set c key data t etag lm now1 now2 =
     Some (c\<lparr>entries := DAList.update key (new data t etag lm now1) (DAList.delete key (entries c)),
              accessLRU := DAList.update key now2 (DAList.delete key (accessLRU c)),
              evictions := evictions c + 1,
              memory := memory c - 2 * Entry_Size old + Entry_Size (new data t etag lm now1)\<rparr>)"
proof -
  define n where "n = Entry_Size (new data t etag lm now1)"
  let ?c0 = "c\<lparr>memory := memory c - Entry_Size old\<rparr>"
  let ?c1 = "c\<lparr>memory := memory c - Entry_Size old - Entry_Size old,
                   entries := DAList.delete key (entries c),
                   accessLRU := DAList.delete key (accessLRU c),
                   evictions := evictions c + 1\<rparr>"
  have ev: "evictLRU ?c0 = ?c1" using assms(2-) by (simp add: evictLRU_def Let_def)
  have kin: "key \<in> keys (entries c)" using assms(2) by (rule lookup_Some_keys)
  have l1: "len (entries ?c1) = len (entries c) - 1" using kin by (simp add: len_delete)
  have step: "evictLoop ?c0 n = evictLoop ?c1 n"
    using assms(3,4) unfolding n_def[symmetric] by (simp add: evictLoop_step ev)
  have stop: "evictLoop ?c1 n = Some ?c1"
    using assms(4,7,8) l1 unfolding n_def[symmetric] by (intro evictLoop_stop) auto
  have "Set c key data t etag lm now1 now2 =
     (case evictLoop ?c0 n of None \<Rightarrow> None
      | Some c2 \<Rightarrow> Some (c2\<lparr>entries := DAList.update key (new data t etag lm now1) (entries c2),
                       accessLRU := DAList.update key now2 (accessLRU c2),
                       memory := memory c2 + n\<rparr>))"
    using assms(2) unfolding n_def new_def by (simp add: Set_def Let_def)
  also have "\<dots> = Some (?c1\<lparr>entries := DAList.update key (new data t etag lm now1) (entries ?c1),
                       accessLRU := DAList.update key now2 (accessLRU ?c1),
                       memory := memory ?c1 + n\<rparr>)"
    by (simp only: step stop option.case)
  finally show ?thesis by (simp add: n_def)
qed

lemma NewCache_fields:
  "entries (NewCache n d m) = DAList.empty" "accessLRU (NewCache n d m) = DAList.empty"
  "maxSize (NewCache n d m) = n" "maxMemory (NewCache n d m) = 20 * 1024 * 1024"
  "memory (NewCache n d m) = 0" "evictions (NewCache n d m) = 0" "hits (NewCache n d m) = 0"
  "misses (NewCache n d m) = 0" "minTTL (NewCache n d m) = m" "maxTTL (NewCache n d m) = 24 * Hour"
  by (simp_all add: NewCache_def NewCacheWithMemoryLimit_def)

lemma run_snoc:
  "run c (ops @ [op]) = (case run c ops of None \<Rightarrow> None | Some c' \<Rightarrow> applyOp c' op)"
  by (induction ops arbitrary: c) (auto split: option.splits)

lemma Set_stuck:
  assumes "DAList.lookup (entries c) key = None"
    and "maxSize c \<le> int (len (entries c))" and "0 < len (entries c)"
    and "scanOldest (DAList.impl_of (accessLRU c)) [] 0 True = []"
  shows "Set c key data t etag lm now1 now2 = None"
proof -
  have "evictLRU c = c" using assms(4) by (simp add: evictLRU_def Let_def)
  then have "evictLoop c n = None" for n
    using assms(2,3) by (intro evictLoop_stuck) auto
  then show ?thesis using assms(1) by (simp add: Set_def Let_def)
qed

lemma Until_exact: "- (2 ^ 63) \<le> t - now \<Longrightarrow> t - now \<le> 2 ^ 63 - 1 \<Longrightarrow> Until t now = t - now"
  by (simp add: Until_def Let_def)

lemma le_Hour: "15 * Minute \<le> Hour" "Minute \<le> Hour" "100 \<le> Hour" "Hour < 2 * Hour"
  by (simp_all add: dur_eval)

section \<open>The least recently accessed key, whatever the order of the map\<close>

lemma scanOldest_keeps:
  "\<not> first \<Longrightarrow> \<forall>p \<in> set xs. \<not> snd p < tc \<Longrightarrow> scanOldest xs cur tc first = cur"
  by (induction xs cur tc first rule: scanOldest.induct) auto

lemma scanOldest_strict_min:
  assumes "distinct (map fst xs)" and "(k, t) \<in> set xs"
    and "\<forall>p \<in> set xs. fst p \<noteq> k \<longrightarrow> t < snd p"
    and "first \<or> t < tc"
  shows "scanOldest xs cur tc first = k"
  using assms
proof (induction xs arbitrary: cur tc first)
  case Nil
  then show ?case by simp
next
  case (Cons a rest)
  obtain key accessTime where a: "a = (key, accessTime)" by (cases a)
  from Cons.prems(1) a have dist: "distinct (map fst rest)" and fresh: "key \<notin> fst ` set rest"
    by simp_all
  show ?case
  proof (cases "key = k")
    case True
    have "(k, t) \<notin> set rest" using fresh True by (metis fst_conv image_eqI)
    with Cons.prems(2) a True have t: "accessTime = t" by simp
    have later: "\<forall>p \<in> set rest. \<not> snd p < t"
    proof
      fix p assume p: "p \<in> set rest"
      then have "fst p \<noteq> k" using fresh True by (metis image_eqI)
      with Cons.prems(3) p have "t < snd p" by simp
      then show "\<not> snd p < t" by simp
    qed
    have "scanOldest rest k t False = k" using later by (simp add: scanOldest_keeps)
    with Cons.prems(4) True t a show ?thesis by simp
  next
    case False
    with Cons.prems(2) a have in_rest: "(k, t) \<in> set rest" by simp
    from Cons.prems(3) a False have lt: "t < accessTime" by simp
    from Cons.prems(3) have others: "\<forall>p \<in> set rest. fst p \<noteq> k \<longrightarrow> t < snd p" by simp
    show ?thesis
    proof (cases "first \<or> accessTime < tc")
      case True
      have "scanOldest rest key accessTime False = k"
        using lt by (intro Cons.IH[OF dist in_rest others]) simp
      with True a show ?thesis by simp
    next
      case no: False
      with Cons.prems(4) have "first \<or> t < tc" by simp
      from Cons.IH[OF dist in_rest others this] no a show ?thesis by simp
    qed
  qed
qed


lemma evictLRU_strict_oldest:
  assumes "0 < len (entries c)"
    and "DAList.lookup (accessLRU c) k = Some t"
    and "\<forall>k' t'. DAList.lookup (accessLRU c) k' = Some t' \<and> k' \<noteq> k \<longrightarrow> t < t'"
  shows "evictLRU c =
     (if k = [] then c
      else c\<lparr>memory := (case DAList.lookup (entries c) k of
                            Some entry \<Rightarrow> memory c - Entry_Size entry | None \<Rightarrow> memory c),
              entries := DAList.delete k (entries c),
              accessLRU := DAList.delete k (accessLRU c),
              evictions := evictions c + 1\<rparr>)"
proof -
  let ?xs = "DAList.impl_of (accessLRU c)"
  have dist: "distinct (map fst ?xs)" by simp
  have "map_of ?xs k = Some t"
    using assms(2) by (simp add: DAList.lookup.rep_eq)
  then have mem: "(k, t) \<in> set ?xs" by (rule map_of_SomeD)
  have others: "\<forall>p \<in> set ?xs. fst p \<noteq> k \<longrightarrow> t < snd p"
  proof (intro ballI impI)
    fix p assume p: "p \<in> set ?xs" and ne: "fst p \<noteq> k"
    from p have "(fst p, snd p) \<in> set ?xs" by simp
    with dist have "map_of ?xs (fst p) = Some (snd p)" by (rule_tac map_of_is_SomeI)
    then have "DAList.lookup (accessLRU c) (fst p) = Some (snd p)"
      by (simp add: DAList.lookup.rep_eq)
    with assms(3) ne show "t < snd p" by blast
  qed
  have "scanOldest ?xs [] 0 True = k"
    by (rule scanOldest_strict_min[OF dist mem others]) simp
  then show ?thesis using assms(1) unfolding evictLRU_def Let_def by simp
qed

lemma Set_never_returns_when_empty_key_is_oldest:
  assumes "DAList.lookup (entries c) key = None"
    and "maxSize c \<le> int (len (entries c))" and "0 < len (entries c)"
    and "DAList.lookup (accessLRU c) [] = Some t"
    and "\<forall>k' t'. DAList.lookup (accessLRU c) k' = Some t' \<and> k' \<noteq> [] \<longrightarrow> t < t'"
  shows "Set c key data t0 etag lm now1 now2 = None"
proof -
  have "evictLRU c = c" using evictLRU_strict_oldest[OF assms(3,4,5)] by simp
  then have "evictLoop c n = None" for n
    using assms(2,3) by (intro evictLoop_stuck) auto
  then show ?thesis using assms(1) by (simp add: Set_def Let_def)
qed

section \<open>The memory account\<close>

lemma Get_accounting:
  "totalSize (snd (Get c key now1 now2)) - memory (snd (Get c key now1 now2)) = totalSize c - memory c"
proof (cases "DAList.lookup (entries c) key")
  case None
  then show ?thesis by (simp add: Get_def totalSize_def)
next
  case (Some e)
  show ?thesis
  proof (cases "IsExpired e now1")
    case True
    have "totalSize (c\<lparr>entries := DAList.delete key (entries c)\<rparr>) = totalSize c - Entry_Size e"
      by (rule totalSize_delete[OF Some])
    then have "totalSize (snd (Get c key now1 now2)) = totalSize c - Entry_Size e"
      using Some True by (simp add: Get_def totalSize_def)
    with Some True show ?thesis by (simp add: Get_def)
  next
    case False
    with Some show ?thesis by (simp add: Get_def totalSize_def)
  qed
qed

lemma Delete_accounting:
  "totalSize (Delete c key) - memory (Delete c key) = totalSize c - memory c"
proof (cases "DAList.lookup (entries c) key")
  case None
  with lookup_None_iff[of "entries c" key] show ?thesis
    by (simp add: Delete_def totalSize_def delete_absent)
next
  case (Some e)
  have "totalSize (c\<lparr>entries := DAList.delete key (entries c)\<rparr>) = totalSize c - Entry_Size e"
    by (rule totalSize_delete[OF Some])
  then have "totalSize (Delete c key) = totalSize c - Entry_Size e"
    using Some by (simp add: Delete_def totalSize_def)
  with Some show ?thesis by (simp add: Delete_def)
qed

lemma Clear_accounting: "totalSize (Clear c) = 0 \<and> memory (Clear c) = 0"
  by (simp add: Clear_def totalSize_def DAList.empty.rep_eq)

lemma cleanupLoop_accounting:
  assumes "distinct (map fst xs)"
    and "\<forall>(k, e) \<in> set xs. DAList.lookup (entries c) k = Some e"
  shows "totalSize (snd (cleanupLoop xs now c removed)) - memory (snd (cleanupLoop xs now c removed))
         = totalSize c - memory c"
  using assms
proof (induction xs arbitrary: c removed)
  case Nil
  then show ?case by simp
next
  case (Cons a xs)
  obtain k e where a: "a = (k, e)" by (cases a)
  from Cons.prems(2) a have ke: "DAList.lookup (entries c) k = Some e" by simp
  have dist: "distinct (map fst xs)" using Cons.prems(1) by simp
  show ?case
  proof (cases "Expiry e < now")
    case True
    let ?c = "c\<lparr>memory := memory c - Entry_Size e,
                entries := DAList.delete k (entries c),
                accessLRU := DAList.delete k (accessLRU c)\<rparr>"
    have "totalSize (c\<lparr>entries := DAList.delete k (entries c)\<rparr>) = totalSize c - Entry_Size e"
      by (rule totalSize_delete[OF ke])
    then have tot: "totalSize ?c = totalSize c - Entry_Size e" by (simp add: totalSize_def)
    have "\<forall>(k', e') \<in> set xs. DAList.lookup (entries ?c) k' = Some e'"
      using Cons.prems(1,2) a by (fastforce simp: image_iff)
    from Cons.IH[OF dist this, of "removed + 1"] True a tot show ?thesis by simp
  next
    case False
    have "\<forall>(k', e') \<in> set xs. DAList.lookup (entries c) k' = Some e'"
      using Cons.prems(2) by auto
    from Cons.IH[OF dist this, of removed] False a show ?thesis by simp
  qed
qed

lemma CleanupExpired_accounting:
  "totalSize (snd (CleanupExpired c now)) - memory (snd (CleanupExpired c now)) = totalSize c - memory c"
  unfolding CleanupExpired_def
  by (rule cleanupLoop_accounting) (auto simp: DAList.lookup.rep_eq)

text \<open>
  \<open>Set\<close> keeps the account exact when it adds a new key; the overwrite is where it goes
  wrong.
\<close>

lemma Set_accounting_new_key:
  assumes set: "Set c key data t etag lm now1 now2 = Some c'" and con: "consistent c"
    and new: "DAList.lookup (entries c) key = None"
  shows "totalSize c' - memory c' = totalSize c - memory c"
proof -
  let ?newEntry = "\<lparr>Data = data, Expiry = now1 + clampTTL c t, ETag = etag, LastModified = lm\<rparr>"
  from new have rel0: "released c key = 0" by (simp add: released_def)
  from Set_mid[OF set con] obtain c2 where
    ev: "evictsTo (c\<lparr>memory := memory c - released c key\<rparr>) c2"
    and c': "c' = c2\<lparr>entries := DAList.update key ?newEntry (entries c2),
                      accessLRU := DAList.update key now2 (accessLRU c2),
                      memory := memory c2 + Entry_Size ?newEntry\<rparr>"
    by blast
  from ev rel0 have diff: "memory c2 - totalSize c2 = memory c - totalSize c"
    and sub: "keys (entries c2) \<subseteq> keys (entries c)"
    by (simp_all add: evictsTo_def totalSize_def)
  from new sub have "key \<notin> keys (entries c2)"
    using lookup_None_iff[of "entries c" key] by auto
  then have "DAList.lookup (entries c2) key = None" by (simp add: lookup_None_iff)
  then have "totalSize c' = totalSize c2 + Entry_Size ?newEntry"
    using totalSize_update[where c=c2 and k=key and v="?newEntry"]
    by (simp add: c' totalSize_def)
  with diff show ?thesis by (simp add: c')
qed

section \<open>The framing of \<open>HashKey\<close>\<close>

lemma writeComponents_eq: "writeComponents h cs = h @ concat (map (\<lambda>c. c @ [CHR 0x00]) cs)"
  by (induction cs arbitrary: h) simp_all

lemma frame_inj:
  assumes "CHR 0x00 \<notin> set a" "CHR 0x00 \<notin> set b" "a @ CHR 0x00 # r = b @ CHR 0x00 # r'"
  shows "a = b \<and> r = r'"
  using assms
proof (induction a arbitrary: b)
  case Nil
  then show ?case by (cases b) auto
next
  case (Cons x a)
  then show ?case by (cases b) auto
qed

lemma writeComponents_inj:
  assumes "\<forall>c \<in> set xs \<union> set ys. CHR 0x00 \<notin> set c"
    and "writeComponents [] xs = writeComponents [] ys"
  shows "xs = ys"
  using assms unfolding writeComponents_eq
proof (induction xs arbitrary: ys)
  case Nil
  then show ?case by (cases ys) auto
next
  case (Cons x xs)
  show ?case
  proof (cases ys)
    case Nil
    with Cons.prems show ?thesis by simp
  next
    case (Cons y ys')
    with Cons.prems(2) have "x @ CHR 0x00 # concat (map (\<lambda>c. c @ [CHR 0x00]) xs)
        = y @ CHR 0x00 # concat (map (\<lambda>c. c @ [CHR 0x00]) ys')" by simp
    from frame_inj[OF _ _ this] Cons.prems(1) Cons
    have "x = y" and "concat (map (\<lambda>c. c @ [CHR 0x00]) xs) = concat (map (\<lambda>c. c @ [CHR 0x00]) ys')"
      by auto
    with Cons.IH[of ys'] Cons.prems(1) Cons show ?thesis by auto
  qed
qed

text \<open>The hexadecimal print loses nothing: keys are equal exactly when the digests are.\<close>

lemma hexDigit_inj: "i < 16 \<Longrightarrow> j < 16 \<Longrightarrow> hexDigit i = hexDigit j \<Longrightarrow> i = j"
proof -
  assume i: "i < 16" and j: "j < 16" and eq: "hexDigit i = hexDigit j"
  have d: "distinct ''0123456789abcdef''" by simp
  from nth_eq_iff_index_eq[OF d, of i j] i j eq show "i = j"
    by (simp add: hexDigit_def)
qed

lemma of_char_less_256: "(of_char b :: nat) < 256"
proof -
  have "(of_char b :: nat) mod 256 < 256" by simp
  then show ?thesis by (simp only: of_char_mod_256)
qed

lemma hexByte_inj: "hexByte a = hexByte b \<Longrightarrow> a = b"
proof -
  assume eq: "hexByte a = hexByte b"
  let ?m = "of_char a :: nat" and ?n = "of_char b :: nat"
  have "?m < 16 * 16" using of_char_less_256[of a] by simp
  then have ma: "?m div 16 < 16" by (rule less_mult_imp_div_less)
  have "?n < 16 * 16" using of_char_less_256[of b] by simp
  then have nb: "?n div 16 < 16" by (rule less_mult_imp_div_less)
  from eq have hi: "hexDigit (?m div 16) = hexDigit (?n div 16)"
    and lo: "hexDigit (?m mod 16) = hexDigit (?n mod 16)"
    by (simp_all add: hexByte_def)
  have "?m div 16 = ?n div 16" by (rule hexDigit_inj[OF ma nb hi])
  moreover have "?m mod 16 = ?n mod 16"
  proof (rule hexDigit_inj[OF _ _ lo])
    show "?m mod 16 < 16" by simp
    show "?n mod 16 < 16" by simp
  qed
  ultimately have "?m div 16 = ?n div 16" "?m mod 16 = ?n mod 16" by simp_all
  then have "?m = ?n" by (metis div_mult_mod_eq)
  then show "a = b" by simp
qed

lemma hex_inj: "hex xs = hex ys \<Longrightarrow> xs = ys"
proof (induction xs arbitrary: ys)
  case Nil
  then show ?case by (cases ys) (simp_all add: hex_def hexByte_def)
next
  case (Cons x xs)
  show ?case
  proof (cases ys)
    case Nil
    with Cons.prems show ?thesis by (simp add: hex_def hexByte_def)
  next
    case (Cons y ys')
    with Cons.prems have "hexByte x @ hex xs = hexByte y @ hex ys'" by (simp add: hex_def)
    moreover have "length (hexByte x) = length (hexByte y)" by (simp add: hexByte_def)
    ultimately have "hexByte x = hexByte y" "hex xs = hex ys'" by simp_all
    with Cons.IH[of ys'] Cons show ?thesis by (simp add: hexByte_inj)
  qed
qed

lemma HashKey_eq_iff:
  "HashKey sha256 xs = HashKey sha256 ys \<longleftrightarrow>
     sha256 (writeComponents [] xs) = sha256 (writeComponents [] ys)"
  by (auto simp: HashKey_def dest: hex_inj)

section \<open>The claims\<close>

subsection \<open>C7: the TTL that \<open>Set\<close> stores\<close>

text \<open>
  C7, as the code has it. Take a store built by the constructor with the bounds
  \<open>minTTL = mn\<close> and \<open>maxTTL = mx\<close> and changed by any sequence of its operations. The entry
  that a completed \<open>Set\<close> leaves under the key expires \<open>min mx (max mn ttl)\<close> after the clock
  reading the expiry was computed from, whatever the caller's TTL, zero included. When
  \<open>mn \<le> mx\<close> that is the caller's TTL clamped into the interval: \<open>mn\<close> below it, \<open>mx\<close>
  above it, the TTL itself inside. When \<open>mx < mn\<close> it is \<open>mx\<close> for every TTL, because the test
  against the maximum comes last. \<open>Set\<close> completes whenever the empty string is not a key of
  the store.
\<close>

theorem Set_effective_ttl:
  fixes t :: duration
  assumes "run (NewCacheWithMemoryLimit ms d mn mm mx) ops = Some c"
  defines "eff \<equiv> if mx < mn then mx else if t < mn then mn else if mx < t then mx else t"
  shows "(\<forall>c'. Set c key data t etag lm now1 now2 = Some c' \<longrightarrow>
            (\<exists>e. DAList.lookup (entries c') key = Some e \<and> Expiry e - now1 = eff))
       \<and> ([] \<notin> keys (entries c) \<longrightarrow> (\<exists>c'. Set c key data t etag lm now1 now2 = Some c'))
       \<and> eff = min mx (max mn t)
       \<and> (mn \<le> mx \<longrightarrow> mn \<le> eff \<and> eff \<le> mx)"
proof -
  note r = reachable_New[OF assms(1)]
  have cl: "clampTTL c t = eff" unfolding eff_def by (simp add: clampTTL_value r)
  have 1: "\<exists>e. DAList.lookup (entries c') key = Some e \<and> Expiry e - now1 = eff"
    if "Set c key data t etag lm now1 now2 = Some c'" for c'
    using Set_stores[OF that] cl by simp
  from r(1) have con: "consistent c" by (simp add: storeInv_def)
  have 2: "\<exists>c'. Set c key data t etag lm now1 now2 = Some c'" if "[] \<notin> keys (entries c)"
    using con that by (rule Set_returns)
  have 3: "eff = min mx (max mn t)" unfolding eff_def by auto
  have 4: "mn \<le> mx \<longrightarrow> mn \<le> eff \<and> eff \<le> mx" unfolding eff_def by auto
  from 1 2 3 4 show ?thesis by blast
qed

theorem Set_effective_ttl_witness:
  "\<exists>c c' e. run (NewCacheWithMemoryLimit 1 (5 * Minute) (2 * Minute) 200 Hour)
              [OpSet ''a'' ''data-a'' (5 * Minute) [] [] 10 11] = Some c
     \<and> Set c ''b'' ''data-b'' 0 [] [] 20 21 = Some c'
     \<and> evictions c' = 1 \<and> keys (entries c') = {''b''}
     \<and> DAList.lookup (entries c') ''b'' = Some e \<and> Expiry e - 20 = 2 * Minute"
proof -
  let ?c0 = "NewCacheWithMemoryLimit 1 (5 * Minute) (2 * Minute) 200 Hour"
  let ?ea = "\<lparr>Data = ''data-a'', Expiry = 10 + clampTTL ?c0 (5 * Minute), ETag = [], LastModified = []\<rparr>"
  let ?c1 = "?c0\<lparr>entries := DAList.update ''a'' ?ea DAList.empty,
        accessLRU := DAList.update ''a'' 11 DAList.empty,
        memory := 30\<rparr>"
  have run1: "run ?c0 [OpSet ''a'' ''data-a'' (5 * Minute) [] [] 10 11] = Some ?c1"
    by (simp add: Set_fresh_store)
  have nokey: "[] \<notin> keys (entries ?c1)" by (simp add: keys_update keys_empty)
  note ttl = Set_effective_ttl[OF run1, of "''b''" "''data-b''" 0 "[]" "[]" 20 21]
  from ttl nokey obtain c' where set: "Set ?c1 ''b'' ''data-b'' 0 [] [] 20 21 = Some c'"
    by blast
  from ttl set obtain e where look: "DAList.lookup (entries c') ''b'' = Some e"
    and exp: "Expiry e - 20 =
       (if Hour < 2 * Minute then Hour else if 0 < 2 * Minute then 2 * Minute
        else if Hour < 0 then Hour else 0)"
    by blast
  from exp have life: "Expiry e - 20 = 2 * Minute" by (simp add: dur_eval)
  have "Set ?c1 ''b'' ''data-b'' 0 [] [] 20 21 =
     Some (?c1\<lparr>entries := DAList.update ''b''
                   \<lparr>Data = ''data-b'', Expiry = 20 + clampTTL ?c1 0, ETag = [], LastModified = []\<rparr>
                   (DAList.delete ''a'' (entries ?c1)),
              accessLRU := DAList.update ''b'' 21 (DAList.delete ''a'' (accessLRU ?c1)),
              evictions := evictions ?c1 + 1,
              memory := memory ?c1 - Entry_Size ?ea
                 + Entry_Size \<lparr>Data = ''data-b'', Expiry = 20 + clampTTL ?c1 0, ETag = [], LastModified = []\<rparr>\<rparr>)"
    by (rule Set_one_eviction)
       (simp_all add: NewCacheWithMemoryLimit_def alist_eval Entry_Size_def)
  with set have c': "c' = ?c1\<lparr>entries := DAList.update ''b''
                   \<lparr>Data = ''data-b'', Expiry = 20 + clampTTL ?c1 0, ETag = [], LastModified = []\<rparr>
                   (DAList.delete ''a'' (entries ?c1)),
              accessLRU := DAList.update ''b'' 21 (DAList.delete ''a'' (accessLRU ?c1)),
              evictions := evictions ?c1 + 1,
              memory := memory ?c1 - Entry_Size ?ea
                 + Entry_Size \<lparr>Data = ''data-b'', Expiry = 20 + clampTTL ?c1 0, ETag = [], LastModified = []\<rparr>\<rparr>"
    by simp
  have ev: "evictions c' = 1" by (simp add: c' NewCacheWithMemoryLimit_def)
  have ks: "keys (entries c') = {''b''}"
    by (simp add: c' keys_update keys_delete keys_empty)
  from run1 set ev ks look life show ?thesis by blast
qed

text \<open>
  C7 as stated fails on a store whose minimum is above its maximum, which neither the
  constructor nor \<open>validate\<close> refuses. With a minimum of two hours and a maximum of one, a
  TTL of zero is below the minimum and the entry lives one hour, not two. The store that
  \<open>New\<close> builds from the server's test configuration has a minimum of fifteen minutes and a
  maximum of zero, and an entry set there with five minutes has expired when it is stored.
\<close>

theorem Set_crossed_bounds:
  "map_option (\<lambda>c'. map_option (\<lambda>e. Expiry e - 1000) (DAList.lookup (entries c') ''k''))
     (Set (NewCacheWithMemoryLimit 10 (5 * Minute) (2 * Hour) 1000 Hour) ''k'' ''v'' 0 [] [] 1000 1001)
     = Some (Some Hour)
   \<and> minTTL (NewCacheWithMemoryLimit 10 (5 * Minute) (2 * Hour) 1000 Hour) = 2 * Hour
   \<and> (0::duration) < 2 * Hour \<and> Hour \<noteq> 2 * Hour
   \<and> minTTL (upstreamCache (New getTestConfig)) = 15 * Minute
   \<and> maxTTL (upstreamCache (New getTestConfig)) = 0
   \<and> map_option (\<lambda>c'. map_option (\<lambda>e. Expiry e - 1000) (DAList.lookup (entries c') ''k''))
       (Set (upstreamCache (New getTestConfig)) ''k'' ''v'' (5 * Minute) [] [] 1000 1001)
     = Some (Some 0)"
  by (simp add: New_def getTestConfig_def NewCacheWithMemoryLimit_def Set_def Let_def evictLoop_stop
      alist_eval clampTTL_def dur_eval)

subsection \<open>C1: the limits after \<open>Set\<close>\<close>

text \<open>
  C1, as the code has it. Take a store built by the constructor with capacity at least one
  and changed by any sequence of its operations. When a further \<open>Set\<close> returns, the entry
  count is within the capacity, and \<open>memory\<close> is within the budget or else the new entry
  alone is larger than the budget and is the only entry left. The store returned is the
  store the eviction loop left, which was empty or had room, with the new entry added to it
  and nothing removed afterwards; the keys the loop removed are least recently accessed
  ones, each accessed no later than every key it kept (\<open>evictsTo\<close>). \<open>Set\<close> returns whenever
  the empty string is not a key.
\<close>

theorem Set_respects_limits:
  fixes c :: Cache
  defines "newEntry \<equiv> \<lambda>c data t etag lm now1.
     \<lparr>Data = data, Expiry = now1 + clampTTL c t, ETag = etag, LastModified = lm\<rparr>"
  assumes "1 \<le> ms" and "run (NewCacheWithMemoryLimit ms d mn mm mx) ops = Some c"
  shows "(\<forall>c'. Set c key data t etag lm now1 now2 = Some c' \<longrightarrow>
            Cache_Size c' \<le> ms
          \<and> (memory c' \<le> mm
               \<or> mm < Entry_Size (newEntry c data t etag lm now1) \<and> keys (entries c') = {key})
          \<and> (\<exists>c2. evictsTo (c\<lparr>memory := memory c - released c key\<rparr>) c2
                \<and> (len (entries c2) = 0
                     \<or> int (len (entries c2)) < ms
                        \<and> memory c2 + Entry_Size (newEntry c data t etag lm now1) \<le> mm)
                \<and> c' = c2\<lparr>entries := DAList.update key (newEntry c data t etag lm now1) (entries c2),
                           accessLRU := DAList.update key now2 (accessLRU c2),
                           memory := memory c2 + Entry_Size (newEntry c data t etag lm now1)\<rparr>))
       \<and> ([] \<notin> keys (entries c) \<longrightarrow> (\<exists>c'. Set c key data t etag lm now1 now2 = Some c'))"
proof -
  from reachable_store[OF storeInv_New assms(3)]
  have inv: "storeInv c" and ms: "maxSize c = ms" and mm: "maxMemory c = mm"
    by (simp_all add: NewCacheWithMemoryLimit_def)
  from assms(2) ms have cap: "1 \<le> maxSize c" by simp
  from inv have con: "consistent c" by (simp add: storeInv_def)
  have bounds: "Cache_Size c' \<le> ms
          \<and> (memory c' \<le> mm
               \<or> mm < Entry_Size (newEntry c data t etag lm now1) \<and> keys (entries c') = {key})
          \<and> (\<exists>c2. evictsTo (c\<lparr>memory := memory c - released c key\<rparr>) c2
                \<and> (len (entries c2) = 0
                     \<or> int (len (entries c2)) < ms
                        \<and> memory c2 + Entry_Size (newEntry c data t etag lm now1) \<le> mm)
                \<and> c' = c2\<lparr>entries := DAList.update key (newEntry c data t etag lm now1) (entries c2),
                           accessLRU := DAList.update key now2 (accessLRU c2),
                           memory := memory c2 + Entry_Size (newEntry c data t etag lm now1)\<rparr>)"
    if set: "Set c key data t etag lm now1 now2 = Some c'" for c'
  proof -
    note b = Set_bounds[OF set inv cap]
    have 1: "Cache_Size c' \<le> ms" using b(1) ms by (simp add: Cache_Size_def)
    have 2: "memory c' \<le> mm
               \<or> mm < Entry_Size (newEntry c data t etag lm now1) \<and> keys (entries c') = {key}"
      using b(2) mm by (simp add: newEntry_def)
    have 3: "\<exists>c2. evictsTo (c\<lparr>memory := memory c - released c key\<rparr>) c2
                \<and> (len (entries c2) = 0
                     \<or> int (len (entries c2)) < ms
                        \<and> memory c2 + Entry_Size (newEntry c data t etag lm now1) \<le> mm)
                \<and> c' = c2\<lparr>entries := DAList.update key (newEntry c data t etag lm now1) (entries c2),
                           accessLRU := DAList.update key now2 (accessLRU c2),
                           memory := memory c2 + Entry_Size (newEntry c data t etag lm now1)\<rparr>"
      using Set_mid[OF set con] ms mm by (simp add: newEntry_def)
    from 1 2 3 show ?thesis by (intro conjI)
  qed
  have returns: "\<exists>c'. Set c key data t etag lm now1 now2 = Some c'" if "[] \<notin> keys (entries c)"
    using con that by (rule Set_returns)
  show ?thesis
    apply (rule conjI)
     apply (rule allI, rule impI)
     apply (erule bounds)
    apply (rule impI)
    apply (erule returns)
    done
qed

theorem Set_respects_limits_witness:
  "\<exists>c c'. run (NewCacheWithMemoryLimit 1 (5 * Minute) Minute 200 Hour)
            [OpSet ''a'' ''data-a'' (5 * Minute) [] [] 10 11] = Some c
     \<and> Set c ''b'' ''data-b'' (5 * Minute) [] [] 20 21 = Some c'
     \<and> Cache_Size c' \<le> 1 \<and> memory c' \<le> 200 \<and> evictions c' = 1"
proof -
  let ?c0 = "NewCacheWithMemoryLimit 1 (5 * Minute) Minute 200 Hour"
  let ?c1 = "?c0\<lparr>entries := DAList.update ''a''
                 \<lparr>Data = ''data-a'', Expiry = 10 + clampTTL ?c0 (5 * Minute), ETag = [], LastModified = []\<rparr>
                 DAList.empty,
        accessLRU := DAList.update ''a'' 11 DAList.empty,
        memory := 30\<rparr>"
  have run1: "run ?c0 [OpSet ''a'' ''data-a'' (5 * Minute) [] [] 10 11] = Some ?c1"
    by (simp add: Set_fresh_store)
  have cap: "(1::int) \<le> 1" by simp
  have nokey: "[] \<notin> keys (entries ?c1)" by (simp add: keys_update keys_empty)
  note lim = Set_respects_limits[OF cap run1, of "''b''" "''data-b''" "5 * Minute" "[]" "[]" 20 21]
  from lim nokey obtain c' where set: "Set ?c1 ''b'' ''data-b'' (5 * Minute) [] [] 20 21 = Some c'"
    by blast
  from lim set have size: "Cache_Size c' \<le> 1"
    and mem: "memory c' \<le> 200 \<or>
       200 < Entry_Size \<lparr>Data = ''data-b'', Expiry = 20 + clampTTL ?c1 (5 * Minute), ETag = [], LastModified = []\<rparr>
        \<and> keys (entries c') = {''b''}"
    and frame: "\<exists>c2. evictsTo (?c1\<lparr>memory := memory ?c1 - released ?c1 ''b''\<rparr>) c2 \<and>
       (len (entries c2) = 0 \<or> int (len (entries c2)) < 1 \<and>
          memory c2 + Entry_Size \<lparr>Data = ''data-b'', Expiry = 20 + clampTTL ?c1 (5 * Minute), ETag = [], LastModified = []\<rparr> \<le> 200) \<and>
       c' = c2\<lparr>entries := DAList.update ''b'' \<lparr>Data = ''data-b'', Expiry = 20 + clampTTL ?c1 (5 * Minute), ETag = [], LastModified = []\<rparr> (entries c2),
               accessLRU := DAList.update ''b'' 21 (accessLRU c2),
               memory := memory c2 + Entry_Size \<lparr>Data = ''data-b'', Expiry = 20 + clampTTL ?c1 (5 * Minute), ETag = [], LastModified = []\<rparr>\<rparr>"
    by blast+
  from mem have m: "memory c' \<le> 200" by (simp add: Entry_Size_def)
  from frame obtain c2 where ev: "evictsTo (?c1\<lparr>memory := memory ?c1 - released ?c1 ''b''\<rparr>) c2"
    and empty: "len (entries c2) = 0"
    and c': "c' = c2\<lparr>entries := DAList.update ''b'' \<lparr>Data = ''data-b'', Expiry = 20 + clampTTL ?c1 (5 * Minute), ETag = [], LastModified = []\<rparr> (entries c2),
               accessLRU := DAList.update ''b'' 21 (accessLRU c2),
               memory := memory c2 + Entry_Size \<lparr>Data = ''data-b'', Expiry = 20 + clampTTL ?c1 (5 * Minute), ETag = [], LastModified = []\<rparr>\<rparr>"
    by auto
  from ev empty have "evictions c2 = 1"
    by (simp add: evictsTo_def NewCacheWithMemoryLimit_def len_update keys_empty len_empty)
  then have e: "evictions c' = 1" by (simp add: c')
  from run1 set size m e show ?thesis by blast
qed

text \<open>
  C1 as stated fails for an entry larger than the whole budget: with a budget of 30 bytes,
  a ten-byte payload weighs 34 and is stored all the same.
\<close>

theorem Set_over_budget:
  "map_option memory
     (Set (NewCacheWithMemoryLimit 10 (5 * Minute) Minute 30 Hour) ''k'' ''0123456789'' Minute [] [] 0 0)
     = Some 34
   \<and> map_option maxMemory
     (Set (NewCacheWithMemoryLimit 10 (5 * Minute) Minute 30 Hour) ''k'' ''0123456789'' Minute [] [] 0 0)
     = Some 30"
  by (simp add: Set_def Let_def NewCacheWithMemoryLimit_def evictLoop_stop alist_eval Entry_Size_def)

text \<open>
  An entry larger than the budget is not always left alone. \<open>memory\<close> may stand below the
  sizes held (C2): here it is 31 with 61 bytes held after the third call, so the last
  \<open>Set\<close> stops evicting with \<open>b\<close> still present and stores an entry of 84 bytes beside it,
  with \<open>memory\<close> 53 under a budget of 60 and 114 bytes held.
\<close>

lemma oversize_entry_beside_another:
  "\<exists>c. run (NewCacheWithMemoryLimit 3 (5 * Minute) Minute 60 Hour)
         [OpSet ''a'' ''aaaaaa'' (5 * Minute) [] [] 10 11,
          OpSet ''b'' ''bbbbbb'' (5 * Minute) [] [] 20 21,
          OpSet ''a'' ''aaaaaaa'' (5 * Minute) [] [] 30 31,
          OpGet ''b'' 40 41,
          OpSet ''a'' ''012345678901234567890123456789012345678901234567890123456789''
             (5 * Minute) [] [] 50 51] = Some c
     \<and> memory c = 53 \<and> maxMemory c = 60 \<and> totalSize c = 114
     \<and> keys (entries c) = {''a'', ''b''}
     \<and> map_option Entry_Size (DAList.lookup (entries c) ''a'') = Some 84"
proof -
  let ?c0 = "NewCacheWithMemoryLimit 3 (5 * Minute) Minute 60 Hour"
  let ?a1 = "\<lparr>Data = ''aaaaaa'', Expiry = 10 + clampTTL ?c0 (5 * Minute), ETag = [], LastModified = []\<rparr>"
  let ?c1 = "?c0\<lparr>entries := DAList.update ''a'' ?a1 DAList.empty,
                 accessLRU := DAList.update ''a'' 11 DAList.empty, memory := 30\<rparr>"
  have s1: "Set ?c0 ''a'' ''aaaaaa'' (5 * Minute) [] [] 10 11 = Some ?c1"
    by (simp add: Set_fresh_store)
  let ?b = "\<lparr>Data = ''bbbbbb'', Expiry = 20 + clampTTL ?c1 (5 * Minute), ETag = [], LastModified = []\<rparr>"
  let ?c2 = "?c1\<lparr>entries := DAList.update ''b'' ?b (entries ?c1),
                 accessLRU := DAList.update ''b'' 21 (accessLRU ?c1),
                 memory := memory ?c1 + Entry_Size ?b\<rparr>"
  have s2: "Set ?c1 ''b'' ''bbbbbb'' (5 * Minute) [] [] 20 21 = Some ?c2"
    by (rule Set_no_eviction) (simp_all add: NewCacheWithMemoryLimit_def alist_eval Entry_Size_def)
  let ?a2 = "\<lparr>Data = ''aaaaaaa'', Expiry = 30 + clampTTL ?c2 (5 * Minute), ETag = [], LastModified = []\<rparr>"
  let ?c3 = "?c2\<lparr>entries := DAList.update ''a'' ?a2 (DAList.delete ''a'' (entries ?c2)),
              accessLRU := DAList.update ''a'' 31 (DAList.delete ''a'' (accessLRU ?c2)),
              evictions := evictions ?c2 + 1,
              memory := memory ?c2 - 2 * Entry_Size ?a1 + Entry_Size ?a2\<rparr>"
  have s3: "Set ?c2 ''a'' ''aaaaaaa'' (5 * Minute) [] [] 30 31 = Some ?c3"
    by (rule Set_overwrite_one_eviction)
       (simp_all add: NewCacheWithMemoryLimit_def alist_eval Entry_Size_def)
  let ?c4 = "?c3\<lparr>accessLRU := DAList.update ''b'' 41 (accessLRU ?c3), hits := hits ?c3 + 1\<rparr>"
  have live: "\<not> IsExpired ?b 40"
    by (simp add: IsExpired_def clampTTL_def NewCacheWithMemoryLimit_def dur_eval)
  have s4: "snd (Get ?c3 ''b'' 40 41) = ?c4"
    using live by (simp add: Get_def alist_eval)
  let ?big = "''012345678901234567890123456789012345678901234567890123456789''"
  let ?a3 = "\<lparr>Data = ?big, Expiry = 50 + clampTTL ?c4 (5 * Minute), ETag = [], LastModified = []\<rparr>"
  let ?c5 = "?c4\<lparr>entries := DAList.update ''a'' ?a3 (DAList.delete ''a'' (entries ?c4)),
              accessLRU := DAList.update ''a'' 51 (DAList.delete ''a'' (accessLRU ?c4)),
              evictions := evictions ?c4 + 1,
              memory := memory ?c4 - 2 * Entry_Size ?a2 + Entry_Size ?a3\<rparr>"
  have s5: "Set ?c4 ''a'' ?big (5 * Minute) [] [] 50 51 = Some ?c5"
    by (rule Set_overwrite_one_eviction)
       (simp_all add: NewCacheWithMemoryLimit_def alist_eval Entry_Size_def)
  have r: "run ?c0 [OpSet ''a'' ''aaaaaa'' (5 * Minute) [] [] 10 11,
          OpSet ''b'' ''bbbbbb'' (5 * Minute) [] [] 20 21,
          OpSet ''a'' ''aaaaaaa'' (5 * Minute) [] [] 30 31,
          OpGet ''b'' 40 41,
          OpSet ''a'' ?big (5 * Minute) [] [] 50 51] = Some ?c5"
    by (simp only: run.simps applyOp.simps s1 s2 s3 s4 s5 option.case)
  have m: "memory ?c5 = 53" by (simp add: NewCacheWithMemoryLimit_def Entry_Size_def)
  have mm: "maxMemory ?c5 = 60" by (simp add: NewCacheWithMemoryLimit_def)
  have ts: "totalSize ?c5 = 114" by (simp add: totalSize_def alist_eval Entry_Size_def)
  have ks: "keys (entries ?c5) = {''a'', ''b''}"
    by (auto simp: keys_update keys_delete keys_empty)
  have sz: "map_option Entry_Size (DAList.lookup (entries ?c5) ''a'') = Some 84"
    by (simp add: alist_eval Entry_Size_def)
  from r m mm ts ks sz show ?thesis by blast
qed

subsection \<open>C4: what \<open>Get\<close> returns and what it changes\<close>

text \<open>
  C4. \<open>Get\<close> returns an entry exactly when the key is present and the entry has not
  expired at the clock reading of the test, and the entry returned is the one stored, so an
  expired entry is never a hit. A present but expired entry is removed from both maps, its
  size is paid back, and the entry count goes down by one. Every call adds one to exactly
  one of \<open>hits\<close> and \<open>misses\<close>: a hit adds to \<open>hits\<close>, refreshes the key's access time and
  leaves the entries alone; a miss adds to \<open>misses\<close>.
\<close>

theorem Get_contract:
  "(\<forall>e. fst (Get c key now1 now2) = Some e \<longleftrightarrow>
          DAList.lookup (entries c) key = Some e \<and> \<not> IsExpired e now1)
   \<and> (\<forall>e. DAList.lookup (entries c) key = Some e \<and> IsExpired e now1 \<longrightarrow>
          fst (Get c key now1 now2) = None
          \<and> DAList.lookup (entries (snd (Get c key now1 now2))) key = None
          \<and> DAList.lookup (accessLRU (snd (Get c key now1 now2))) key = None
          \<and> Cache_Size (snd (Get c key now1 now2)) = Cache_Size c - 1
          \<and> memory (snd (Get c key now1 now2)) = memory c - Entry_Size e)
   \<and> (case fst (Get c key now1 now2) of
         Some e \<Rightarrow>
           hits (snd (Get c key now1 now2)) = hits c + 1
           \<and> misses (snd (Get c key now1 now2)) = misses c
           \<and> DAList.lookup (accessLRU (snd (Get c key now1 now2))) key = Some now2
           \<and> entries (snd (Get c key now1 now2)) = entries c
           \<and> memory (snd (Get c key now1 now2)) = memory c
       | None \<Rightarrow>
           hits (snd (Get c key now1 now2)) = hits c
           \<and> misses (snd (Get c key now1 now2)) = misses c + 1)"
proof -
  have hit: "fst (Get c key now1 now2) = Some e \<longleftrightarrow>
          DAList.lookup (entries c) key = Some e \<and> \<not> IsExpired e now1" for e
    by (auto simp: Get_def split: option.splits)
  have expired: "fst (Get c key now1 now2) = None
          \<and> DAList.lookup (entries (snd (Get c key now1 now2))) key = None
          \<and> DAList.lookup (accessLRU (snd (Get c key now1 now2))) key = None
          \<and> Cache_Size (snd (Get c key now1 now2)) = Cache_Size c - 1
          \<and> memory (snd (Get c key now1 now2)) = memory c - Entry_Size e"
    if a: "DAList.lookup (entries c) key = Some e \<and> IsExpired e now1" for e
  proof -
    from a have kin: "key \<in> keys (entries c)" by (auto dest: lookup_Some_keys)
    then have "0 < len (entries c)" using len_0_iff[of "entries c"] by auto
    with a kin show ?thesis
      by (auto simp: Get_def Cache_Size_def len_delete)
  qed
  have counters: "case fst (Get c key now1 now2) of
         Some e \<Rightarrow>
           hits (snd (Get c key now1 now2)) = hits c + 1
           \<and> misses (snd (Get c key now1 now2)) = misses c
           \<and> DAList.lookup (accessLRU (snd (Get c key now1 now2))) key = Some now2
           \<and> entries (snd (Get c key now1 now2)) = entries c
           \<and> memory (snd (Get c key now1 now2)) = memory c
       | None \<Rightarrow>
           hits (snd (Get c key now1 now2)) = hits c
           \<and> misses (snd (Get c key now1 now2)) = misses c + 1"
    by (auto simp: Get_def split: option.splits)
  from hit expired counters show ?thesis by blast
qed

theorem Get_contract_witness:
  "fst (Get (NewCacheWithMemoryLimit 1 (5 * Minute) Minute 200 Hour
       \<lparr>entries := DAList.update ''a'' \<lparr>Data = ''data-a'', Expiry = 10 + 5 * Minute, ETag = [], LastModified = []\<rparr> DAList.empty,
        accessLRU := DAList.update ''a'' 11 DAList.empty,
        memory := 30\<rparr>) ''a'' 20 21)
     = Some \<lparr>Data = ''data-a'', Expiry = 10 + 5 * Minute, ETag = [], LastModified = []\<rparr>
   \<and> hits (snd (Get (NewCacheWithMemoryLimit 1 (5 * Minute) Minute 200 Hour
       \<lparr>entries := DAList.update ''a'' \<lparr>Data = ''data-a'', Expiry = 10 + 5 * Minute, ETag = [], LastModified = []\<rparr> DAList.empty,
        accessLRU := DAList.update ''a'' 11 DAList.empty,
        memory := 30\<rparr>) ''a'' 20 21)) = 1
   \<and> fst (Get (NewCacheWithMemoryLimit 1 (5 * Minute) Minute 200 Hour
       \<lparr>entries := DAList.update ''a'' \<lparr>Data = ''data-a'', Expiry = 10 + 5 * Minute, ETag = [], LastModified = []\<rparr> DAList.empty,
        accessLRU := DAList.update ''a'' 11 DAList.empty,
        memory := 30\<rparr>) ''a'' (11 + 5 * Minute) (12 + 5 * Minute)) = None
   \<and> Cache_Size (snd (Get (NewCacheWithMemoryLimit 1 (5 * Minute) Minute 200 Hour
       \<lparr>entries := DAList.update ''a'' \<lparr>Data = ''data-a'', Expiry = 10 + 5 * Minute, ETag = [], LastModified = []\<rparr> DAList.empty,
        accessLRU := DAList.update ''a'' 11 DAList.empty,
        memory := 30\<rparr>) ''a'' (11 + 5 * Minute) (12 + 5 * Minute))) = 0"
proof -
  let ?e = "\<lparr>Data = ''data-a'', Expiry = 10 + 5 * Minute, ETag = [], LastModified = []\<rparr>"
  let ?c = "NewCacheWithMemoryLimit 1 (5 * Minute) Minute 200 Hour
       \<lparr>entries := DAList.update ''a'' ?e DAList.empty,
        accessLRU := DAList.update ''a'' 11 DAList.empty,
        memory := 30\<rparr>"
  have look: "DAList.lookup (entries ?c) ''a'' = Some ?e" by simp
  have fresh: "\<not> IsExpired ?e 20" by (simp add: IsExpired_def dur_eval)
  have stale: "IsExpired ?e (11 + 5 * Minute)" by (simp add: IsExpired_def)
  have size: "Cache_Size ?c = 1" by (simp add: Cache_Size_def alist_eval)
  have h0: "hits ?c = 0" by (simp add: NewCacheWithMemoryLimit_def)
  note g1 = Get_contract[of ?c "''a''" 20 21]
  note g2 = Get_contract[of ?c "''a''" "11 + 5 * Minute" "12 + 5 * Minute"]
  from g1 look fresh have r1: "fst (Get ?c ''a'' 20 21) = Some ?e" by blast
  with g1 h0 have r2: "hits (snd (Get ?c ''a'' 20 21)) = 1" by simp
  from g2 look stale have r3: "fst (Get ?c ''a'' (11 + 5 * Minute) (12 + 5 * Minute)) = None"
    and r4: "Cache_Size (snd (Get ?c ''a'' (11 + 5 * Minute) (12 + 5 * Minute))) = Cache_Size ?c - 1"
    by blast+
  from r1 r2 r3 r4 size show ?thesis by simp
qed

subsection \<open>C2: the memory account\<close>

text \<open>
  C2 fails on an overwrite. \<open>Set\<close> subtracts the old entry's size and leaves the old entry
  in the maps; when the eviction loop then picks that same key, \<open>evictLRU\<close> subtracts the
  size a second time. On a store of capacity one, storing a one-byte payload under \<open>a\<close>
  twice leaves \<open>memory\<close> at 0 while the entry present weighs 25.
\<close>

theorem Set_overwrite_releases_twice:
  "map_option memory
     (run (NewCacheWithMemoryLimit 1 (5 * Minute) Minute 200 Hour)
        [OpSet ''a'' ''x'' (5 * Minute) [] [] 10 11, OpSet ''a'' ''x'' (5 * Minute) [] [] 20 21]) = Some 0
   \<and> map_option totalSize
     (run (NewCacheWithMemoryLimit 1 (5 * Minute) Minute 200 Hour)
        [OpSet ''a'' ''x'' (5 * Minute) [] [] 10 11, OpSet ''a'' ''x'' (5 * Minute) [] [] 20 21]) = Some 25"
  by (simp add: Set_def Let_def NewCacheWithMemoryLimit_def evictLoop_stop evictLoop_step
      evictLRU_def alist_eval Entry_Size_def totalSize_def)

subsection \<open>C9: the order of eviction\<close>

text \<open>
  The scenario of C9 for any four distinct keys whose second key is not the empty string,
  any payloads that fit the budget, and any clock readings with access times in the order of
  the calls: the third insertion fills the store without evicting, and after the read of the
  first key the fourth insertion evicts the second key and nothing else.
\<close>

lemma LRU_evicts_least_recent:
  assumes dist: "distinct [A, B, C, D]" and victim: "B \<noteq> []"
    and stamps: "a2 < b2" "b2 < c2" "c2 < r2"
    and alive: "r1 \<le> a1 + 5 * Minute"
    and fits: "int (length da + length db + length dc + length dd) + 96 \<le> 20 * 1024 * 1024"
  shows "\<exists>c3 c5.
          run (NewCache 3 (5 * Minute) Minute)
            [OpSet A da (5 * Minute) [] [] a1 a2,
             OpSet B db (5 * Minute) [] [] b1 b2,
             OpSet C dc (5 * Minute) [] [] c1 c2] = Some c3
          \<and> Cache_Size c3 = 3 \<and> evictions c3 = 0
          \<and> run c3 [OpGet A r1 r2, OpSet D dd (5 * Minute) [] [] d1 d2] = Some c5
          \<and> keys (entries c5) = {A, C, D}
          \<and> Cache_Size c5 = 3
          \<and> evictions c5 = 1
          \<and> fst (Get c5 B g1 g2) = None
          \<and> (fst (Get c5 A g1 g2) = None \<longleftrightarrow> a1 + 5 * Minute < g1)"
proof -
  let ?c0 = "NewCache 3 (5 * Minute) Minute"
  have cl: "clampTTL ?c0 (5 * Minute) = 5 * Minute"
    by (simp add: clampTTL_def NewCache_fields dur_eval)
  define eA where "eA = \<lparr>Data = da, Expiry = a1 + 5 * Minute, ETag = [], LastModified = []\<rparr>"
  define eB where "eB = \<lparr>Data = db, Expiry = b1 + 5 * Minute, ETag = [], LastModified = []\<rparr>"
  define eC where "eC = \<lparr>Data = dc, Expiry = c1 + 5 * Minute, ETag = [], LastModified = []\<rparr>"
  define eD where "eD = \<lparr>Data = dd, Expiry = d1 + 5 * Minute, ETag = [], LastModified = []\<rparr>"
  have sz: "Entry_Size eA = int (length da) + 24" "Entry_Size eB = int (length db) + 24"
    "Entry_Size eC = int (length dc) + 24" "Entry_Size eD = int (length dd) + 24"
    by (simp_all add: Entry_Size_def eA_def eB_def eC_def eD_def)
  from dist have ne: "A \<noteq> B" "A \<noteq> C" "A \<noteq> D" "B \<noteq> C" "B \<noteq> D" "C \<noteq> D"
    "B \<noteq> A" "C \<noteq> A" "D \<noteq> A" "C \<noteq> B" "D \<noteq> B" "D \<noteq> C"
    by auto
  define s1 where "s1 = ?c0\<lparr>entries := DAList.update A eA DAList.empty,
      accessLRU := DAList.update A a2 DAList.empty, memory := Entry_Size eA\<rparr>"
  define s2 where "s2 = s1\<lparr>entries := DAList.update B eB (entries s1),
      accessLRU := DAList.update B b2 (accessLRU s1), memory := memory s1 + Entry_Size eB\<rparr>"
  define s3 where "s3 = s2\<lparr>entries := DAList.update C eC (entries s2),
      accessLRU := DAList.update C c2 (accessLRU s2), memory := memory s2 + Entry_Size eC\<rparr>"
  define s4 where "s4 = s3\<lparr>accessLRU := DAList.update A r2 (accessLRU s3), hits := hits s3 + 1\<rparr>"
  define s5 where "s5 = s4\<lparr>entries := DAList.update D eD (DAList.delete B (entries s4)),
      accessLRU := DAList.update D d2 (DAList.delete B (accessLRU s4)),
      evictions := evictions s4 + 1,
      memory := memory s4 - Entry_Size eB + Entry_Size eD\<rparr>"
  note unf = eA_def eB_def eC_def eD_def Entry_Size_def
  have cls: "clampTTL s1 (5 * Minute) = 5 * Minute" "clampTTL s2 (5 * Minute) = 5 * Minute"
    "clampTTL s3 (5 * Minute) = 5 * Minute" "clampTTL s4 (5 * Minute) = 5 * Minute"
    by (simp_all add: clampTTL_def Let_def s1_def s2_def s3_def s4_def NewCache_fields dur_eval)
  have set1: "Set ?c0 A da (5 * Minute) [] [] a1 a2 = Some s1"
    using fits
    by (subst Set_no_eviction) (simp_all add: NewCache_fields len_empty cl s1_def unf)
  have f1: "entries s1 = DAList.update A eA DAList.empty" "memory s1 = Entry_Size eA"
    "maxSize s1 = 3" "maxMemory s1 = 20 * 1024 * 1024"
    by (simp_all add: s1_def NewCache_fields)
  have set2: "Set s1 B db (5 * Minute) [] [] b1 b2 = Some s2"
    using fits ne
    by (subst Set_no_eviction)
       (simp_all add: f1 len_update keys_empty len_empty cls s2_def unf)
  have f2: "entries s2 = DAList.update B eB (DAList.update A eA DAList.empty)"
    "memory s2 = Entry_Size eA + Entry_Size eB"
    "maxSize s2 = 3" "maxMemory s2 = 20 * 1024 * 1024"
    by (simp_all add: s2_def f1)
  have set3: "Set s2 C dc (5 * Minute) [] [] c1 c2 = Some s3"
    using fits ne
    by (subst Set_no_eviction)
       (simp_all add: f2 len_update keys_update keys_empty len_empty cls s3_def unf)
  have get4: "Get s3 A r1 r2 = (Some eA, s4)"
    using alive ne
    by (simp add: Get_def s3_def s2_def s1_def s4_def DAList.lookup_update IsExpired_def eA_def)
  have acc4: "DAList.impl_of (accessLRU s4) = [(A, r2), (B, b2), (C, c2)]"
    using ne by (simp add: s4_def s3_def s2_def s1_def alist_eval)
  have oldest: "scanOldest (DAList.impl_of (accessLRU s4)) [] 0 True = B"
    using stamps by (simp add: acc4)
  have ent4: "DAList.impl_of (entries s4) = [(A, eA), (B, eB), (C, eC)]"
    using ne by (simp add: s4_def s3_def s2_def s1_def alist_eval)
  have mem4: "memory s4 = Entry_Size eA + Entry_Size eB + Entry_Size eC"
    by (simp add: s4_def s3_def s2_def s1_def)
  have par4: "maxSize s4 = 3" "maxMemory s4 = 20 * 1024 * 1024" "evictions s4 = 0"
    by (simp_all add: s4_def s3_def s2_def s1_def NewCache_fields)
  have p1: "DAList.lookup (entries s4) D = None"
    using ne by (simp add: DAList.lookup.rep_eq ent4)
  have p2: "maxSize s4 = int (len (entries s4))" by (simp add: par4 len_def ent4)
  have p3: "0 < len (entries s4)" by (simp add: len_def ent4)
  have p6: "DAList.lookup (entries s4) B = Some eB"
    using ne by (simp add: DAList.lookup.rep_eq ent4)
  have p7: "memory s4 - Entry_Size eB
      + Entry_Size \<lparr>Data = dd, Expiry = d1 + clampTTL s4 (5 * Minute), ETag = [], LastModified = []\<rparr>
      \<le> maxMemory s4"
    using fits by (simp add: par4 mem4 unf)
  have set5: "Set s4 D dd (5 * Minute) [] [] d1 d2 = Some s5"
    unfolding Set_one_eviction[OF p1 p2 p3 oldest victim p6 p7]
    by (simp add: s5_def cls eD_def)
  have ent5: "DAList.impl_of (entries s5) = [(A, eA), (C, eC), (D, eD)]"
    using ne by (simp add: s5_def DAList.update.rep_eq DAList.delete.rep_eq ent4)
  have run3: "run ?c0 [OpSet A da (5 * Minute) [] [] a1 a2,
             OpSet B db (5 * Minute) [] [] b1 b2,
             OpSet C dc (5 * Minute) [] [] c1 c2] = Some s3"
    by (simp add: set1 set2 set3)
  have run5: "run s3 [OpGet A r1 r2, OpSet D dd (5 * Minute) [] [] d1 d2] = Some s5"
    by (simp add: get4 set5)
  have size3: "Cache_Size s3 = 3"
    using ent4 by (simp add: Cache_Size_def len_def s4_def)
  have ev3: "evictions s3 = 0" using par4 by (simp add: s4_def)
  have k5: "keys (entries s5) = {A, C, D}" by (simp add: keys_def ent5)
  have size5: "Cache_Size s5 = 3" by (simp add: Cache_Size_def len_def ent5)
  have ev5: "evictions s5 = 1" using par4 by (simp add: s5_def)
  have gB: "fst (Get s5 B g1 g2) = None"
    using ne by (simp add: Get_def DAList.lookup.rep_eq ent5)
  have gA: "fst (Get s5 A g1 g2) = None \<longleftrightarrow> a1 + 5 * Minute < g1"
    using ne by (simp add: Get_def DAList.lookup.rep_eq ent5 IsExpired_def eA_def)
  show ?thesis
    by (intro exI[of _ s3] exI[of _ s5] conjI run3 size3 ev3 run5 k5 size5 ev5 gB gA)
qed

text \<open>
  C9 with the empty string as second key. \<open>evictLRU\<close> selects it, as the least recently
  accessed, and then takes \<open>oldestKey == ""\<close> for "nothing found": nothing is evicted, the
  store stays full, and the loop of \<open>Set\<close> never ends.
\<close>

theorem LRU_empty_key_never_evicted:
  "run (NewCache 3 (5 * Minute) Minute)
     [OpSet ''a'' ''data-a'' (5 * Minute) [] [] 10 11,
      OpSet [] ''data-b'' (5 * Minute) [] [] 20 21,
      OpSet ''c'' ''data-c'' (5 * Minute) [] [] 30 31,
      OpGet ''a'' 40 41,
      OpSet ''d'' ''data-d'' (5 * Minute) [] [] 50 51] = None"
proof -
  let ?c0 = "NewCache 3 (5 * Minute) Minute"
  define s4 where "s4 = ?c0
     \<lparr>entries := DAList.update ''c'' \<lparr>Data = ''data-c'', Expiry = 30 + 5 * Minute, ETag = [], LastModified = []\<rparr>
         (DAList.update [] \<lparr>Data = ''data-b'', Expiry = 20 + 5 * Minute, ETag = [], LastModified = []\<rparr>
         (DAList.update ''a'' \<lparr>Data = ''data-a'', Expiry = 10 + 5 * Minute, ETag = [], LastModified = []\<rparr>
            DAList.empty)),
      accessLRU := DAList.update ''a'' 41 (DAList.update ''c'' 31 (DAList.update [] 21
         (DAList.update ''a'' 11 DAList.empty))),
      memory := 90, hits := 1\<rparr>"
  have pre: "run ?c0
     [OpSet ''a'' ''data-a'' (5 * Minute) [] [] 10 11,
      OpSet [] ''data-b'' (5 * Minute) [] [] 20 21,
      OpSet ''c'' ''data-c'' (5 * Minute) [] [] 30 31,
      OpGet ''a'' 40 41] = Some s4"
    unfolding s4_def
    by (simp add: Set_no_eviction NewCache_fields len_update keys_update keys_empty len_empty
        clampTTL_def Let_def Entry_Size_def Get_def IsExpired_def DAList.lookup_update)
       (simp add: dur_eval)
  have stuck: "Set s4 ''d'' ''data-d'' (5 * Minute) [] [] 50 51 = None"
    by (rule Set_stuck) (simp_all add: s4_def NewCache_fields alist_eval)
  have "run ?c0
     ([OpSet ''a'' ''data-a'' (5 * Minute) [] [] 10 11,
      OpSet [] ''data-b'' (5 * Minute) [] [] 20 21,
      OpSet ''c'' ''data-c'' (5 * Minute) [] [] 30 31,
      OpGet ''a'' 40 41] @ [OpSet ''d'' ''data-d'' (5 * Minute) [] [] 50 51]) = None"
    unfolding run_snoc pre by (simp add: stuck)
  then show ?thesis by simp
qed

subsection \<open>C5: revalidation that finds the document unchanged\<close>

text \<open>
  C5. When the raw-document store holds an unexpired entry for the address and the
  conditional fetch, sent with that entry's validators, reports "not modified",
  \<open>fetchUpstream\<close> returns the entry's payload and the time left until the entry's expiry:
  \<open>Expiry e - tu\<close>, where \<open>tu\<close> is the clock reading of \<open>time.Until\<close>, cut to the range of
  \<open>int64\<close> as \<open>time.Until\<close> does, and so \<open>Expiry e - tu\<close> itself inside that range. It
  leaves the server as it was except for what \<open>Get\<close> did: the key's access time and the hit
  counter. The entries, and with them the payload, the expiry and the validators, are the
  same.
\<close>

theorem fetchUpstream_not_modified:
  assumes "DAList.lookup (entries (upstreamCache s)) url = Some e"
    and "\<not> IsExpired e tg1"
    and "FetchConditional url (ETag e) (LastModified e) = NotModified"
  shows "fetchUpstream s FetchConditional Fetch ParseCacheHeaders url tg1 tg2 tu ts1 ts2 =
           Some (Inr (Data e,
                      if 2 ^ 63 - 1 < Expiry e - tu then 2 ^ 63 - 1
                      else if Expiry e - tu < - (2 ^ 63) then - (2 ^ 63)
                      else Expiry e - tu),
                 s\<lparr>upstreamCache := (upstreamCache s)
                      \<lparr>accessLRU := DAList.update url tg2 (accessLRU (upstreamCache s)),
                       hits := hits (upstreamCache s) + 1\<rparr>\<rparr>)
       \<and> (- (2 ^ 63) \<le> Expiry e - tu \<and> Expiry e - tu \<le> 2 ^ 63 - 1 \<longrightarrow>
           fetchUpstream s FetchConditional Fetch ParseCacheHeaders url tg1 tg2 tu ts1 ts2 =
             Some (Inr (Data e, Expiry e - tu),
                   s\<lparr>upstreamCache := (upstreamCache s)
                        \<lparr>accessLRU := DAList.update url tg2 (accessLRU (upstreamCache s)),
                         hits := hits (upstreamCache s) + 1\<rparr>\<rparr>))"
  using assms by (simp add: fetchUpstream_def Get_def Until_def Let_def)

theorem fetchUpstream_not_modified_witness:
  "fetchUpstream
     \<lparr>cfg = getTestConfig,
      upstreamCache = NewCacheWithMemoryLimit 100 (5 * Minute) (15 * Minute) 10485760 Hour
        \<lparr>entries := DAList.update ''https://example.com/calendar.ics''
            \<lparr>Data = ''BEGIN:VCALENDAR'', Expiry = 10 + Hour, ETag = ''v1'', LastModified = []\<rparr> DAList.empty,
         accessLRU := DAList.update ''https://example.com/calendar.ics'' 11 DAList.empty,
         memory := 41\<rparr>,
      filteredCache = NewCacheWithMemoryLimit 200 (5 * Minute) (15 * Minute) 20971520 Hour\<rparr>
     (\<lambda>u etag lm. NotModified) (\<lambda>u. Inl ''not called'') (\<lambda>cc ex. 0)
     ''https://example.com/calendar.ics'' 20 21 30 40 41
   = Some (Inr (''BEGIN:VCALENDAR'', 3599999999980),
       \<lparr>cfg = getTestConfig,
        upstreamCache = NewCacheWithMemoryLimit 100 (5 * Minute) (15 * Minute) 10485760 Hour
          \<lparr>entries := DAList.update ''https://example.com/calendar.ics''
              \<lparr>Data = ''BEGIN:VCALENDAR'', Expiry = 3600000000010, ETag = ''v1'', LastModified = []\<rparr> DAList.empty,
           accessLRU := DAList.update ''https://example.com/calendar.ics'' 21 DAList.empty,
           memory := 41, hits := 1\<rparr>,
        filteredCache = NewCacheWithMemoryLimit 200 (5 * Minute) (15 * Minute) 20971520 Hour\<rparr>)"
proof -
  let ?e = "\<lparr>Data = ''BEGIN:VCALENDAR'', Expiry = 10 + Hour, ETag = ''v1'', LastModified = []\<rparr>"
  let ?c = "NewCacheWithMemoryLimit 100 (5 * Minute) (15 * Minute) 10485760 Hour
        \<lparr>entries := DAList.update ''https://example.com/calendar.ics'' ?e DAList.empty,
         accessLRU := DAList.update ''https://example.com/calendar.ics'' 11 DAList.empty,
         memory := 41\<rparr>"
  let ?s = "\<lparr>cfg = getTestConfig, upstreamCache = ?c,
      filteredCache = NewCacheWithMemoryLimit 200 (5 * Minute) (15 * Minute) 20971520 Hour\<rparr>"
  have look: "DAList.lookup (entries (upstreamCache ?s)) ''https://example.com/calendar.ics'' = Some ?e"
    by simp
  have fresh: "\<not> IsExpired ?e 20" using le_Hour by (simp add: IsExpired_def)
  have nm: "(\<lambda>u etag lm. NotModified) ''https://example.com/calendar.ics'' (ETag ?e) (LastModified ?e) = NotModified"
    by simp
  have range: "- (2 ^ 63) \<le> Expiry ?e - 30 \<and> Expiry ?e - 30 \<le> 2 ^ 63 - 1"
    by (simp add: dur_eval)
  from fetchUpstream_not_modified[of ?s _ ?e 20 "\<lambda>u etag lm. NotModified", OF look fresh nm,
      of "\<lambda>u. Inl ''not called''" "\<lambda>cc ex. 0" 21 30 40 41] range
  have "fetchUpstream ?s (\<lambda>u etag lm. NotModified) (\<lambda>u. Inl ''not called'') (\<lambda>cc ex. 0)
          ''https://example.com/calendar.ics'' 20 21 30 40 41 =
        Some (Inr (Data ?e, Expiry ?e - 30),
              ?s\<lparr>upstreamCache := (upstreamCache ?s)
                   \<lparr>accessLRU := DAList.update ''https://example.com/calendar.ics'' 21 (accessLRU (upstreamCache ?s)),
                    hits := hits (upstreamCache ?s) + 1\<rparr>\<rparr>)"
    by blast
  then show ?thesis
    by (simp add: NewCacheWithMemoryLimit_def dur_eval)
qed

subsection \<open>C6: a failed origin fetch\<close>

text \<open>
  C6, as the code has it. When the origin fetch that \<open>fetchUpstream\<close> makes fails, the call
  returns that failure and the raw-document store is what the opening \<open>Get\<close> left: no entry
  is written or overwritten, every entry present afterwards was present before unchanged,
  and every entry present before is still there, except the entry of the requested address
  when it had expired, which \<open>Get\<close> removes.
\<close>

theorem fetchUpstream_failure:
  assumes "case fst (Get (upstreamCache s) url tg1 tg2) of
             Some e \<Rightarrow> FetchConditional url (ETag e) (LastModified e) = CondError err
           | None \<Rightarrow> Fetch url = Inl err"
  shows "\<exists>s'. fetchUpstream s FetchConditional Fetch ParseCacheHeaders url tg1 tg2 tu ts1 ts2 = Some (Inl err, s')
           \<and> s' = s\<lparr>upstreamCache := snd (Get (upstreamCache s) url tg1 tg2)\<rparr>
           \<and> (\<forall>k e'. DAList.lookup (entries (upstreamCache s')) k = Some e' \<longrightarrow>
                  DAList.lookup (entries (upstreamCache s)) k = Some e')
           \<and> (\<forall>k e0. DAList.lookup (entries (upstreamCache s)) k = Some e0
                    \<and> \<not> (k = url \<and> IsExpired e0 tg1) \<longrightarrow>
                  DAList.lookup (entries (upstreamCache s')) k = Some e0)"
  using assms
  by (auto simp: fetchUpstream_def Get_def split: option.splits if_splits)

theorem fetchUpstream_failure_witness:
  "fetchUpstream
     \<lparr>cfg = getTestConfig,
      upstreamCache = NewCacheWithMemoryLimit 100 (5 * Minute) (15 * Minute) 10485760 Hour
        \<lparr>entries := DAList.update ''https://example.com/calendar.ics''
            \<lparr>Data = ''BEGIN:VCALENDAR'', Expiry = 10 + Hour, ETag = ''v1'', LastModified = []\<rparr> DAList.empty,
         accessLRU := DAList.update ''https://example.com/calendar.ics'' 11 DAList.empty,
         memory := 41\<rparr>,
      filteredCache = NewCacheWithMemoryLimit 200 (5 * Minute) (15 * Minute) 20971520 Hour\<rparr>
     (\<lambda>u etag lm. CondError ''unexpected status code: 500'') (\<lambda>u. Inl ''not called'') (\<lambda>cc ex. 0)
     ''https://example.com/calendar.ics'' 20 21 30 40 41
   = Some (Inl ''unexpected status code: 500'',
       \<lparr>cfg = getTestConfig,
        upstreamCache = NewCacheWithMemoryLimit 100 (5 * Minute) (15 * Minute) 10485760 Hour
          \<lparr>entries := DAList.update ''https://example.com/calendar.ics''
              \<lparr>Data = ''BEGIN:VCALENDAR'', Expiry = 10 + Hour, ETag = ''v1'', LastModified = []\<rparr> DAList.empty,
           accessLRU := DAList.update ''https://example.com/calendar.ics'' 21 DAList.empty,
           memory := 41, hits := 1\<rparr>,
        filteredCache = NewCacheWithMemoryLimit 200 (5 * Minute) (15 * Minute) 20971520 Hour\<rparr>)"
proof -
  let ?e = "\<lparr>Data = ''BEGIN:VCALENDAR'', Expiry = 10 + Hour, ETag = ''v1'', LastModified = []\<rparr>"
  let ?c = "NewCacheWithMemoryLimit 100 (5 * Minute) (15 * Minute) 10485760 Hour
        \<lparr>entries := DAList.update ''https://example.com/calendar.ics'' ?e DAList.empty,
         accessLRU := DAList.update ''https://example.com/calendar.ics'' 11 DAList.empty,
         memory := 41\<rparr>"
  let ?s = "\<lparr>cfg = getTestConfig, upstreamCache = ?c,
      filteredCache = NewCacheWithMemoryLimit 200 (5 * Minute) (15 * Minute) 20971520 Hour\<rparr>"
  let ?FC = "\<lambda>(u::string) (etag::string) (lm::string). CondError ''unexpected status code: 500''"
  have get: "Get ?c ''https://example.com/calendar.ics'' 20 21 =
      (Some ?e, ?c\<lparr>accessLRU := DAList.update ''https://example.com/calendar.ics'' 21 (accessLRU ?c),
                     hits := hits ?c + 1\<rparr>)"
    using le_Hour by (simp add: Get_def IsExpired_def)
  have hyp: "case fst (Get (upstreamCache ?s) ''https://example.com/calendar.ics'' 20 21) of
             Some e \<Rightarrow> ?FC ''https://example.com/calendar.ics'' (ETag e) (LastModified e)
                        = CondError ''unexpected status code: 500''
           | None \<Rightarrow> (\<lambda>u. Inl ''not called'') ''https://example.com/calendar.ics''
                        = Inl ''unexpected status code: 500''"
    by (simp add: get)
  from fetchUpstream_failure[OF hyp, of "\<lambda>cc ex. 0" 30 40 41]
  have "fetchUpstream ?s ?FC (\<lambda>u. Inl ''not called'') (\<lambda>cc ex. 0)
          ''https://example.com/calendar.ics'' 20 21 30 40 41
        = Some (Inl ''unexpected status code: 500'',
            ?s\<lparr>upstreamCache := snd (Get (upstreamCache ?s) ''https://example.com/calendar.ics'' 20 21)\<rparr>)"
    by blast
  also have "snd (Get (upstreamCache ?s) ''https://example.com/calendar.ics'' 20 21) =
      ?c\<lparr>accessLRU := DAList.update ''https://example.com/calendar.ics'' 21 (accessLRU ?c),
                     hits := hits ?c + 1\<rparr>"
    by (simp add: get)
  finally show ?thesis
    by (simp add: NewCacheWithMemoryLimit_def)
qed

text \<open>
  C6 as stated fails: with an expired entry under the address and a failing origin, the
  store after the call has lost the entry and counts one more miss.
\<close>

theorem fetchUpstream_failure_changes_cache:
  "DAList.lookup (entries (NewCacheWithMemoryLimit 100 (5 * Minute) (15 * Minute) 10485760 Hour
        \<lparr>entries := DAList.update ''https://example.com/calendar.ics''
            \<lparr>Data = ''BEGIN:VCALENDAR'', Expiry = 10 + Hour, ETag = ''v1'', LastModified = []\<rparr> DAList.empty,
         accessLRU := DAList.update ''https://example.com/calendar.ics'' 11 DAList.empty,
         memory := 41\<rparr>)) ''https://example.com/calendar.ics''
     = Some \<lparr>Data = ''BEGIN:VCALENDAR'', Expiry = 10 + Hour, ETag = ''v1'', LastModified = []\<rparr>
   \<and> fetchUpstream
     \<lparr>cfg = getTestConfig,
      upstreamCache = NewCacheWithMemoryLimit 100 (5 * Minute) (15 * Minute) 10485760 Hour
        \<lparr>entries := DAList.update ''https://example.com/calendar.ics''
            \<lparr>Data = ''BEGIN:VCALENDAR'', Expiry = 10 + Hour, ETag = ''v1'', LastModified = []\<rparr> DAList.empty,
         accessLRU := DAList.update ''https://example.com/calendar.ics'' 11 DAList.empty,
         memory := 41\<rparr>,
      filteredCache = NewCacheWithMemoryLimit 200 (5 * Minute) (15 * Minute) 20971520 Hour\<rparr>
     (\<lambda>u etag lm. CondError ''not called'') (\<lambda>u. Inl ''unexpected status code: 500'') (\<lambda>cc ex. 0)
     ''https://example.com/calendar.ics'' (11 + Hour) (12 + Hour) (13 + Hour) (14 + Hour) (15 + Hour)
   = Some (Inl ''unexpected status code: 500'',
       \<lparr>cfg = getTestConfig,
        upstreamCache = NewCacheWithMemoryLimit 100 (5 * Minute) (15 * Minute) 10485760 Hour
          \<lparr>entries := DAList.delete ''https://example.com/calendar.ics''
              (DAList.update ''https://example.com/calendar.ics''
                \<lparr>Data = ''BEGIN:VCALENDAR'', Expiry = 10 + Hour, ETag = ''v1'', LastModified = []\<rparr> DAList.empty),
           accessLRU := DAList.delete ''https://example.com/calendar.ics''
              (DAList.update ''https://example.com/calendar.ics'' 11 DAList.empty),
           memory := 0, misses := 1\<rparr>,
        filteredCache = NewCacheWithMemoryLimit 200 (5 * Minute) (15 * Minute) 20971520 Hour\<rparr>)
   \<and> DAList.lookup (DAList.delete ''https://example.com/calendar.ics''
              (DAList.update ''https://example.com/calendar.ics''
                \<lparr>Data = ''BEGIN:VCALENDAR'', Expiry = 10 + Hour, ETag = ''v1'', LastModified = []\<rparr> DAList.empty))
          ''https://example.com/calendar.ics'' = None"
  by (simp add: fetchUpstream_def Get_def IsExpired_def NewCacheWithMemoryLimit_def Entry_Size_def)

subsection \<open>C10: the TTL returned and the TTL stored\<close>

text \<open>
  C10, as the code has it. Take a server whose raw-document store was built by the
  constructor with the bounds \<open>minTTL = mn\<close> and \<open>maxTTL = mx\<close> and changed by any sequence
  of its operations, and an origin that answers with a fresh or a modified document. When
  \<open>fetchUpstream\<close> returns, the TTL it returns is \<open>t\<close>, the parsed TTL or the configured
  default when the parser gives zero, with no clamp; the entry it stores carries the
  response's body and validators and expires \<open>min mx (max mn t)\<close> after the clock reading of
  \<open>Set\<close>. The call returns, in the fresh and in the modified branch, whenever the empty
  string is not a key of the store. The stored lifetime equals the returned TTL exactly
  when \<open>mn \<le> t \<le> mx\<close>, or \<open>mx < mn\<close> and \<open>t = mx\<close>: above \<open>mx\<close> the entry lives \<open>mx\<close>,
  which is less than the TTL returned; below \<open>mn\<close> on a store with \<open>mn \<le> mx\<close> it lives
  \<open>mn\<close>, which is more. The duration behind the client's \<open>max-age\<close> is at least the TTL
  returned.
\<close>

theorem fetchUpstream_ttl_returned_and_stored:
  fixes s :: Server and resp :: Response
    and ParseCacheHeaders :: "string \<Rightarrow> string \<Rightarrow> duration" and mn mx :: duration
  assumes origin: "case fst (Get (upstreamCache s) url tg1 tg2) of
             Some e \<Rightarrow> FetchConditional url (ETag e) (LastModified e) = Modified resp
           | None \<Rightarrow> Fetch url = Inr resp"
    and reach: "run (NewCacheWithMemoryLimit ms d mn mm mx) ops = Some (upstreamCache s)"
  defines "t \<equiv> if ParseCacheHeaders (CacheControl resp) (Expires resp) = 0
                 then DefaultTTL (Cache_cfg (cfg s))
                 else ParseCacheHeaders (CacheControl resp) (Expires resp)"
  defines "stored \<equiv> if mx < mn then mx else if t < mn then mn else if mx < t then mx else t"
  shows "(\<forall>r s'. fetchUpstream s FetchConditional Fetch ParseCacheHeaders url tg1 tg2 tu ts1 ts2 = Some (r, s')
            \<longrightarrow> r = Inr (Body resp, t)
               \<and> (\<exists>e. DAList.lookup (entries (upstreamCache s')) url = Some e
                      \<and> Data e = Body resp \<and> ETag e = Resp_ETag resp
                      \<and> LastModified e = Resp_LastModified resp
                      \<and> Expiry e - ts1 = stored))
       \<and> ([] \<notin> keys (entries (upstreamCache s)) \<longrightarrow>
            (\<exists>r s'. fetchUpstream s FetchConditional Fetch ParseCacheHeaders url tg1 tg2 tu ts1 ts2 = Some (r, s')))
       \<and> stored = min mx (max mn t)
       \<and> (stored = t \<longleftrightarrow> (mn \<le> t \<and> t \<le> mx) \<or> (mx < mn \<and> t = mx))
       \<and> (mx < t \<longrightarrow> stored = mx \<and> stored < t)
       \<and> (t < mn \<and> mn \<le> mx \<longrightarrow> stored = mn \<and> t < stored)
       \<and> t \<le> cacheDuration (cfg s) t"
proof -
  let ?c = "upstreamCache s"
  let ?c1 = "snd (Get ?c url tg1 tg2)"
  note rc = reachable_New[OF reach]
  note gk = Get_keeps[of ?c url tg1 tg2]
  have cl: "clampTTL ?c1 t = stored"
    unfolding stored_def by (simp add: clampTTL_value gk rc)
  have sr: "fetchUpstream s FetchConditional Fetch ParseCacheHeaders url tg1 tg2 tu ts1 ts2 =
            storeResponse s ?c1 ParseCacheHeaders url resp ts1 ts2"
    using origin by (cases "Get ?c url tg1 tg2") (auto simp: fetchUpstream_def split: option.splits)
  have st: "storeResponse s ?c1 ParseCacheHeaders url resp ts1 ts2 =
      (case Set ?c1 url (Body resp) t (Resp_ETag resp) (Resp_LastModified resp) ts1 ts2 of
         None \<Rightarrow> None
       | Some c' \<Rightarrow> Some (Inr (Body resp, t), s\<lparr>upstreamCache := c'\<rparr>))"
    unfolding t_def by (simp add: storeResponse_def Let_def)
  have 1: "r = Inr (Body resp, t)
               \<and> (\<exists>e. DAList.lookup (entries (upstreamCache s')) url = Some e
                      \<and> Data e = Body resp \<and> ETag e = Resp_ETag resp
                      \<and> LastModified e = Resp_LastModified resp
                      \<and> Expiry e - ts1 = stored)"
    if ret: "fetchUpstream s FetchConditional Fetch ParseCacheHeaders url tg1 tg2 tu ts1 ts2 = Some (r, s')"
    for r s'
  proof -
    from ret sr st obtain c' where
      set: "Set ?c1 url (Body resp) t (Resp_ETag resp) (Resp_LastModified resp) ts1 ts2 = Some c'"
      and r: "r = Inr (Body resp, t)" and s': "s' = s\<lparr>upstreamCache := c'\<rparr>"
      by (auto split: option.splits)
    from Set_stores[OF set] cl r s' show ?thesis by simp
  qed
  have 2: "\<exists>r s'. fetchUpstream s FetchConditional Fetch ParseCacheHeaders url tg1 tg2 tu ts1 ts2 = Some (r, s')"
    if nokey: "[] \<notin> keys (entries ?c)"
  proof -
    from storeInv_Get[OF rc(1)] have con: "consistent ?c1" by (simp add: storeInv_def)
    from nokey gk have nokey1: "[] \<notin> keys (entries ?c1)" by blast
    from Set_returns[OF con nokey1] obtain c' where
      "Set ?c1 url (Body resp) t (Resp_ETag resp) (Resp_LastModified resp) ts1 ts2 = Some c'"
      by blast
    with sr st show ?thesis by simp
  qed
  have 3: "stored = min mx (max mn t)" unfolding stored_def by auto
  have 4: "stored = t \<longleftrightarrow> (mn \<le> t \<and> t \<le> mx) \<or> (mx < mn \<and> t = mx)" unfolding stored_def by auto
  have 5: "mx < t \<longrightarrow> stored = mx \<and> stored < t" unfolding stored_def by auto
  have 6: "t < mn \<and> mn \<le> mx \<longrightarrow> stored = mn \<and> t < stored" unfolding stored_def by auto
  have 7: "t \<le> cacheDuration (cfg s) t" by (simp add: cacheDuration_def)
  show ?thesis
    apply (rule conjI)
     apply (rule allI, rule allI, rule impI)
     apply (erule 1)
    apply (rule conjI)
     apply (rule impI)
     apply (erule 2)
    apply (intro conjI 3 4 5 6 7)
    done
qed

theorem fetchUpstream_ttl_returned_and_stored_witness:
  "(\<exists>s'. fetchUpstream
       \<lparr>cfg = getTestConfig,
        upstreamCache = NewCacheWithMemoryLimit 100 (5 * Minute) (15 * Minute) 10485760 Hour,
        filteredCache = NewCacheWithMemoryLimit 200 (5 * Minute) (15 * Minute) 20971520 Hour\<rparr>
       (\<lambda>u etag lm. CondError ''not called'')
       (\<lambda>u. Inr \<lparr>Body = ''BEGIN:VCALENDAR'', StatusCode = 200, Resp_ETag = ''v2'',
                    Resp_LastModified = [], CacheControl = ''max-age=7200'', Expires = []\<rparr>)
       (\<lambda>cc ex. 2 * Hour)
       ''https://example.com/calendar.ics'' 20 21 30 40 41
     = Some (Inr (''BEGIN:VCALENDAR'', 2 * Hour), s')
     \<and> (\<exists>e. DAList.lookup (entries (upstreamCache s')) ''https://example.com/calendar.ics'' = Some e
            \<and> Expiry e - 40 = Hour))
   \<and> (\<exists>c s'. run (NewCacheWithMemoryLimit 100 (5 * Minute) (15 * Minute) 10485760 Hour)
               [OpSet ''https://example.com/calendar.ics'' ''OLD'' (5 * Minute) ''v1'' [] 10 11] = Some c
        \<and> fetchUpstream
           \<lparr>cfg = getTestConfig, upstreamCache = c,
            filteredCache = NewCacheWithMemoryLimit 200 (5 * Minute) (15 * Minute) 20971520 Hour\<rparr>
           (\<lambda>u etag lm. Modified \<lparr>Body = ''BEGIN:VCALENDAR'', StatusCode = 200, Resp_ETag = ''v2'',
                    Resp_LastModified = [], CacheControl = ''max-age=60'', Expires = []\<rparr>)
           (\<lambda>u. Inl ''not called'')
           (\<lambda>cc ex. Minute)
           ''https://example.com/calendar.ics'' 20 21 30 40 41
         = Some (Inr (''BEGIN:VCALENDAR'', Minute), s')
        \<and> (\<exists>e. DAList.lookup (entries (upstreamCache s')) ''https://example.com/calendar.ics'' = Some e
               \<and> Data e = ''BEGIN:VCALENDAR'' \<and> ETag e = ''v2'' \<and> Expiry e - 40 = 15 * Minute))"
proof -
  let ?c = "NewCacheWithMemoryLimit 100 (5 * Minute) (15 * Minute) 10485760 Hour"
  let ?fc = "NewCacheWithMemoryLimit 200 (5 * Minute) (15 * Minute) 20971520 Hour"
  let ?url = "''https://example.com/calendar.ics''"
  have fresh: "\<exists>s'. fetchUpstream \<lparr>cfg = getTestConfig, upstreamCache = ?c, filteredCache = ?fc\<rparr>
       (\<lambda>u etag lm. CondError ''not called'')
       (\<lambda>u. Inr \<lparr>Body = ''BEGIN:VCALENDAR'', StatusCode = 200, Resp_ETag = ''v2'',
                    Resp_LastModified = [], CacheControl = ''max-age=7200'', Expires = []\<rparr>)
       (\<lambda>cc ex. 2 * Hour) ?url 20 21 30 40 41
     = Some (Inr (''BEGIN:VCALENDAR'', 2 * Hour), s')
     \<and> (\<exists>e. DAList.lookup (entries (upstreamCache s')) ?url = Some e \<and> Expiry e - 40 = Hour)"
  proof -
    let ?s = "\<lparr>cfg = getTestConfig, upstreamCache = ?c, filteredCache = ?fc\<rparr>"
    let ?resp = "\<lparr>Body = ''BEGIN:VCALENDAR'', StatusCode = 200, Resp_ETag = ''v2'',
                    Resp_LastModified = [], CacheControl = ''max-age=7200'', Expires = []\<rparr>"
    let ?FC = "\<lambda>(u::string) (etag::string) (lm::string). CondError ''not called''"
    let ?F = "\<lambda>u::string. (Inr ?resp :: error + Response)"
    let ?P = "\<lambda>(cc::string) (ex::string). 2 * Hour"
    have get: "Get ?c ?url 20 21 = (None, ?c\<lparr>misses := misses ?c + 1\<rparr>)"
      by (simp add: Get_def NewCacheWithMemoryLimit_def)
    have origin: "case fst (Get (upstreamCache ?s) ?url 20 21) of
             Some e \<Rightarrow> ?FC ?url (ETag e) (LastModified e) = Modified ?resp
           | None \<Rightarrow> ?F ?url = Inr ?resp"
      by (simp add: get)
    have reach: "run ?c [] = Some (upstreamCache ?s)" by simp
    have nokey: "[] \<notin> keys (entries (upstreamCache ?s))"
      by (simp add: NewCacheWithMemoryLimit_def keys_empty)
    have nz: "2 * Hour \<noteq> 0" by (simp add: dur_eval)
    note inst = fetchUpstream_ttl_returned_and_stored[OF origin reach, of ?P 30 40 41]
    from inst nokey obtain r s' where ret: "fetchUpstream ?s ?FC ?F ?P ?url 20 21 30 40 41 = Some (r, s')"
      by blast
    from inst ret nz le_Hour have "r = Inr (''BEGIN:VCALENDAR'', 2 * Hour)"
      and "\<exists>e. DAList.lookup (entries (upstreamCache s')) ?url = Some e \<and> Expiry e - 40 = Hour"
      by auto
    with ret show ?thesis by blast
  qed
  have modified: "\<exists>c s'. run ?c [OpSet ?url ''OLD'' (5 * Minute) ''v1'' [] 10 11] = Some c
        \<and> fetchUpstream \<lparr>cfg = getTestConfig, upstreamCache = c, filteredCache = ?fc\<rparr>
           (\<lambda>u etag lm. Modified \<lparr>Body = ''BEGIN:VCALENDAR'', StatusCode = 200, Resp_ETag = ''v2'',
                    Resp_LastModified = [], CacheControl = ''max-age=60'', Expires = []\<rparr>)
           (\<lambda>u. Inl ''not called'')
           (\<lambda>cc ex. Minute) ?url 20 21 30 40 41
         = Some (Inr (''BEGIN:VCALENDAR'', Minute), s')
        \<and> (\<exists>e. DAList.lookup (entries (upstreamCache s')) ?url = Some e
               \<and> Data e = ''BEGIN:VCALENDAR'' \<and> ETag e = ''v2'' \<and> Expiry e - 40 = 15 * Minute)"
  proof -
    let ?old = "\<lparr>Data = ''OLD'', Expiry = 10 + clampTTL ?c (5 * Minute), ETag = ''v1'', LastModified = []\<rparr>"
    let ?c1 = "?c\<lparr>entries := DAList.update ?url ?old DAList.empty,
                   accessLRU := DAList.update ?url 11 DAList.empty,
                   memory := 29\<rparr>"
    let ?s = "\<lparr>cfg = getTestConfig, upstreamCache = ?c1, filteredCache = ?fc\<rparr>"
    let ?resp = "\<lparr>Body = ''BEGIN:VCALENDAR'', StatusCode = 200, Resp_ETag = ''v2'',
                    Resp_LastModified = [], CacheControl = ''max-age=60'', Expires = []\<rparr>"
    let ?FC = "\<lambda>(u::string) (etag::string) (lm::string). Modified ?resp"
    let ?F = "\<lambda>u::string. (Inl ''not called'' :: error + Response)"
    let ?P = "\<lambda>(cc::string) (ex::string). Minute"
    have run1: "run ?c [OpSet ?url ''OLD'' (5 * Minute) ''v1'' [] 10 11] = Some ?c1"
      by (simp add: Set_fresh_store)
    have live: "\<not> IsExpired ?old 20"
      by (simp add: IsExpired_def clampTTL_def NewCacheWithMemoryLimit_def dur_eval)
    have get: "fst (Get ?c1 ?url 20 21) = Some ?old"
      using live by (simp add: Get_def)
    have origin: "case fst (Get (upstreamCache ?s) ?url 20 21) of
             Some e \<Rightarrow> ?FC ?url (ETag e) (LastModified e) = Modified ?resp
           | None \<Rightarrow> ?F ?url = Inr ?resp"
      by (simp add: get)
    have reach: "run ?c [OpSet ?url ''OLD'' (5 * Minute) ''v1'' [] 10 11] = Some (upstreamCache ?s)"
      using run1 by simp
    have nokey: "[] \<notin> keys (entries (upstreamCache ?s))"
      by (simp add: keys_update keys_empty)
    have nz: "Minute \<noteq> 0" "Minute < 15 * Minute" by (simp_all add: dur_eval)
    note inst = fetchUpstream_ttl_returned_and_stored[OF origin reach, of ?P 30 40 41]
    from inst nokey obtain r s' where ret: "fetchUpstream ?s ?FC ?F ?P ?url 20 21 30 40 41 = Some (r, s')"
      by blast
    from inst ret nz le_Hour have "r = Inr (''BEGIN:VCALENDAR'', Minute)"
      and "\<exists>e. DAList.lookup (entries (upstreamCache s')) ?url = Some e
               \<and> Data e = ''BEGIN:VCALENDAR'' \<and> ETag e = ''v2'' \<and> Expiry e - 40 = 15 * Minute"
      by auto
    with ret run1 show ?thesis by blast
  qed
  from fresh modified show ?thesis by (rule conjI)
qed

text \<open>
  C10 as stated fails on a store whose minimum is above its maximum: with a minimum of two
  hours, a maximum of one hour and an origin TTL of one hour, the TTL is below the minimum,
  yet the TTL returned and the lifetime of the stored entry are both one hour.
\<close>

theorem fetchUpstream_ttl_below_min_not_raised:
  "minTTL (NewCacheWithMemoryLimit 100 (5 * Minute) (2 * Hour) 10485760 Hour) = 2 * Hour
   \<and> maxTTL (NewCacheWithMemoryLimit 100 (5 * Minute) (2 * Hour) 10485760 Hour) = Hour
   \<and> Hour < 2 * Hour
   \<and> map_option (\<lambda>(r, s'). (r, map_option (\<lambda>e. Expiry e - 40)
                (DAList.lookup (entries (upstreamCache s')) ''https://example.com/calendar.ics'')))
      (fetchUpstream
       \<lparr>cfg = getTestConfig,
        upstreamCache = NewCacheWithMemoryLimit 100 (5 * Minute) (2 * Hour) 10485760 Hour,
        filteredCache = NewCacheWithMemoryLimit 200 (5 * Minute) (2 * Hour) 20971520 Hour\<rparr>
       (\<lambda>u etag lm. CondError ''not called'')
       (\<lambda>u. Inr \<lparr>Body = ''BEGIN:VCALENDAR'', StatusCode = 200, Resp_ETag = ''v2'',
                    Resp_LastModified = [], CacheControl = ''max-age=3600'', Expires = []\<rparr>)
       (\<lambda>cc ex. Hour)
       ''https://example.com/calendar.ics'' 20 21 30 40 41)
     = Some (Inr (''BEGIN:VCALENDAR'', Hour), Some Hour)"
  by (simp add: fetchUpstream_def Get_def storeResponse_def Set_def Let_def NewCacheWithMemoryLimit_def
      evictLoop_stop alist_eval clampTTL_def Entry_Size_def dur_eval)

subsection \<open>C8: capacity and budget that are not positive\<close>

text \<open>
  C8, as the code has it. The store's constructor checks nothing: it returns an empty store
  with the capacity and the budget it is given, whatever their sign. A capacity or a
  budget that is not positive is refused earlier, by \<open>validate\<close> when the configuration is
  loaded; a configuration that \<open>validate\<close> accepts gives the raw-document store of
  \<open>server.New\<close> a positive capacity and a positive budget.
\<close>

theorem capacity_checked_by_validate:
  "maxSize (NewCacheWithMemoryLimit ms d mn mm mx) = ms
   \<and> maxMemory (NewCacheWithMemoryLimit ms d mn mm mx) = mm
   \<and> entries (NewCacheWithMemoryLimit ms d mn mm mx) = DAList.empty
   \<and> (MaxSize (Cache_cfg cfg0) \<le> 0 \<or> MaxMemory (Cache_cfg cfg0) \<le> 0 \<longrightarrow> validate cfg0 \<noteq> None)
   \<and> (validate cfg0 = None \<longrightarrow>
         0 < maxSize (upstreamCache (New cfg0)) \<and> 0 < maxMemory (upstreamCache (New cfg0)))"
  by (auto simp: NewCacheWithMemoryLimit_def validate_def New_def split: if_splits)

theorem capacity_checked_by_validate_witness:
  "validate (getTestConfig
      \<lparr>Server_cfg := (Server_cfg getTestConfig)\<lparr>BaseURL := ''http://localhost:8080''\<rparr>,
       Cache_cfg := (Cache_cfg getTestConfig)\<lparr>MaxMemory := 20971520, MaxTTL := 24 * Hour\<rparr>\<rparr>) = None
   \<and> 0 < maxMemory (upstreamCache (New (getTestConfig
      \<lparr>Server_cfg := (Server_cfg getTestConfig)\<lparr>BaseURL := ''http://localhost:8080''\<rparr>,
       Cache_cfg := (Cache_cfg getTestConfig)\<lparr>MaxMemory := 20971520, MaxTTL := 24 * Hour\<rparr>\<rparr>)))
   \<and> validate (getTestConfig
      \<lparr>Server_cfg := (Server_cfg getTestConfig)\<lparr>BaseURL := ''http://localhost:8080''\<rparr>,
       Cache_cfg := (Cache_cfg getTestConfig)\<lparr>MaxMemory := 0, MaxTTL := 24 * Hour\<rparr>\<rparr>) \<noteq> None"
proof -
  let ?ok = "getTestConfig
      \<lparr>Server_cfg := (Server_cfg getTestConfig)\<lparr>BaseURL := ''http://localhost:8080''\<rparr>,
       Cache_cfg := (Cache_cfg getTestConfig)\<lparr>MaxMemory := 20971520, MaxTTL := 24 * Hour\<rparr>\<rparr>"
  let ?bad = "getTestConfig
      \<lparr>Server_cfg := (Server_cfg getTestConfig)\<lparr>BaseURL := ''http://localhost:8080''\<rparr>,
       Cache_cfg := (Cache_cfg getTestConfig)\<lparr>MaxMemory := 0, MaxTTL := 24 * Hour\<rparr>\<rparr>"
  have v: "validate ?ok = None"
    by (simp add: validate_def getTestConfig_def dur_eval)
  have z: "MaxMemory (Cache_cfg ?bad) \<le> 0" by simp
  from capacity_checked_by_validate[of _ _ _ _ _ ?ok] v
  have "0 < maxMemory (upstreamCache (New ?ok))" by blast
  moreover from capacity_checked_by_validate[of _ _ _ _ _ ?bad] z
  have "validate ?bad \<noteq> None" by blast
  ultimately show ?thesis using v by blast
qed

text \<open>
  C8 as stated fails: the constructor builds a store of capacity 0 and budget -1, that store
  then accepts an entry, and the configuration of the server's own tests gives the
  raw-document store a budget of 0.
\<close>

theorem zero_capacity_store_is_built:
  "NewCacheWithMemoryLimit 0 (5 * Minute) Minute (- 1) Hour =
     \<lparr>entries = DAList.empty, maxSize = 0, maxMemory = - 1, maxTTL = Hour, ttl = 5 * Minute,
      minTTL = Minute, accessLRU = DAList.empty, hits = 0, misses = 0, evictions = 0, memory = 0\<rparr>
   \<and> map_option Cache_Size
        (Set (NewCacheWithMemoryLimit 0 (5 * Minute) Minute (- 1) Hour) ''k'' ''v'' Minute [] [] 0 0)
      = Some 1
   \<and> maxMemory (upstreamCache (New getTestConfig)) = 0"
  by (simp add: NewCacheWithMemoryLimit_def Set_def Let_def evictLoop_stop alist_eval Cache_Size_def
      New_def getTestConfig_def)

subsection \<open>C3: the fingerprint\<close>

text \<open>
  C3 fails for components that hold the zero byte, which a Go string may: the separator is
  not reserved. The one component made of the bytes \<open>a\<close>, zero, \<open>b\<close> and the two
  components \<open>a\<close> and \<open>b\<close> are written to the digest as the same bytes and get the
  same key under every digest; so do the empty component followed by the component made of
  one zero byte and the same two in the other order, lists that differ only in order.
\<close>

theorem HashKey_zero_byte_collision:
  "[[CHR ''a'', CHR 0x00, CHR ''b'']] \<noteq> [''a'', ''b'']
   \<and> writeComponents [] [[CHR ''a'', CHR 0x00, CHR ''b'']] = writeComponents [] [''a'', ''b'']
   \<and> HashKey sha256 [[CHR ''a'', CHR 0x00, CHR ''b'']] = HashKey sha256 [''a'', ''b'']
   \<and> [[], [CHR 0x00]] \<noteq> [[CHR 0x00], []]
   \<and> HashKey sha256 [[], [CHR 0x00]] = HashKey sha256 [[CHR 0x00], []]"
  by (simp add: HashKey_def)

end
